theory Spec2Isabelle
  imports Complex_Main
begin

section \<open>Data model\<close>

text \<open>
  The dataclass \<open>InputParameters\<close> (notebook_code.py, lines 5 to 9) has three fields
  annotated \<open>float\<close>. The fields are finite numbers; the embedding takes them as reals and
  the arithmetic on them as exact. The two effects of the Python and numpy arithmetic that
  exact arithmetic on finite numbers still shows are written out:
  \<^item> numpy's \<open>log2\<close> returns \<open>nan\<close> on a negative argument and \<open>-inf\<close> on zero, so the
    values that flow out of it are of type \<open>pyfloat\<close>;
  \<^item> Python's float division raises \<open>ZeroDivisionError\<close> on a zero divisor.
  The products, the occupancy and the entropy are embedded a second time, with every
  operation rounded to binary64, in a section of its own: rounding changes the range of
  the occupancy, and the statements about exact values are checked there as well.
\<close>

record InputParameters =
  flux :: real
  pixel_area :: real
  frame_duration :: real

datatype error = ZeroDivisionError

datatype pyfloat = Num real | PosInf | NegInf | NaN

subsection \<open>Construction and attribute assignment\<close>

text \<open>
  The \<open>__init__\<close> that \<open>@dataclass\<close> generates stores its three arguments; the class has
  no \<open>__post_init__\<close>, no property and no \<open>__setattr__\<close>, so neither construction nor an
  assignment such as \<open>inputParameters.flux = flux\<close> (line 151) has a branch that raises.
  The result type leaves room for an error so that this is a statement about the model
  and not a consequence of its types.
\<close>

definition init_InputParameters :: "real \<Rightarrow> real \<Rightarrow> real \<Rightarrow> error + InputParameters" where
  "init_InputParameters f a d = Inr \<lparr>flux = f, pixel_area = a, frame_duration = d\<rparr>"

definition setattr_flux :: "InputParameters \<Rightarrow> real \<Rightarrow> error + InputParameters" where
  "setattr_flux p v = Inr (p\<lparr>flux := v\<rparr>)"

definition setattr_pixel_area :: "InputParameters \<Rightarrow> real \<Rightarrow> error + InputParameters" where
  "setattr_pixel_area p v = Inr (p\<lparr>pixel_area := v\<rparr>)"

definition setattr_frame_duration :: "InputParameters \<Rightarrow> real \<Rightarrow> error + InputParameters" where
  "setattr_frame_duration p v = Inr (p\<lparr>frame_duration := v\<rparr>)"

text \<open>
  The \<open>__eq__\<close> that \<open>@dataclass\<close> generates compares the tuples of the fields, in the
  order of their declaration (both operands being instances of the class).
\<close>

definition eq_InputParameters :: "'a InputParameters_scheme \<Rightarrow> 'b InputParameters_scheme \<Rightarrow> bool" where
  "eq_InputParameters p q \<longleftrightarrow>
     (flux p, pixel_area p, frame_duration p) = (flux q, pixel_area q, frame_duration q)"

section \<open>Arithmetic of numpy values\<close>

text \<open>\<open>np.log2\<close>: \<open>nan\<close> below zero, \<open>-inf\<close> at zero (both with a warning, not an exception).\<close>

definition np_log2 :: "real \<Rightarrow> pyfloat" where
  "np_log2 x = (if 0 < x then Num (log 2 x) else if x = 0 then NegInf else NaN)"

fun fmul :: "pyfloat \<Rightarrow> pyfloat \<Rightarrow> pyfloat" where
  "fmul NaN _ = NaN"
| "fmul _ NaN = NaN"
| "fmul (Num a) (Num b) = Num (a * b)"
| "fmul (Num a) PosInf = (if a = 0 then NaN else if 0 < a then PosInf else NegInf)"
| "fmul (Num a) NegInf = (if a = 0 then NaN else if 0 < a then NegInf else PosInf)"
| "fmul PosInf (Num b) = (if b = 0 then NaN else if 0 < b then PosInf else NegInf)"
| "fmul NegInf (Num b) = (if b = 0 then NaN else if 0 < b then NegInf else PosInf)"
| "fmul PosInf PosInf = PosInf"
| "fmul NegInf NegInf = PosInf"
| "fmul PosInf NegInf = NegInf"
| "fmul NegInf PosInf = NegInf"

fun fsub :: "pyfloat \<Rightarrow> pyfloat \<Rightarrow> pyfloat" where
  "fsub NaN _ = NaN"
| "fsub _ NaN = NaN"
| "fsub (Num a) (Num b) = Num (a - b)"
| "fsub (Num a) PosInf = NegInf"
| "fsub (Num a) NegInf = PosInf"
| "fsub PosInf (Num b) = PosInf"
| "fsub NegInf (Num b) = NegInf"
| "fsub PosInf PosInf = NaN"
| "fsub NegInf NegInf = NaN"
| "fsub PosInf NegInf = PosInf"
| "fsub NegInf PosInf = NegInf"

text \<open>
  \<open>x / d\<close> with \<open>d\<close> a field of the instance, a Python float. When \<open>d\<close> is zero the product
  of the three fields is zero, the occupancy is zero, and the numerator is the Python float
  \<open>0.0\<close> that \<open>calculate_pixel_entropy\<close> returns on line 32 (lemma
  \<open>zero_divisor_numerator\<close> below): Python's own division then raises.
\<close>

definition py_truediv :: "pyfloat \<Rightarrow> real \<Rightarrow> error + pyfloat" where
  "py_truediv x d =
     (if d = 0 then Inl ZeroDivisionError
      else Inr (case x of
                  Num a \<Rightarrow> Num (a / d)
                | PosInf \<Rightarrow> (if 0 < d then PosInf else NegInf)
                | NegInf \<Rightarrow> (if 0 < d then NegInf else PosInf)
                | NaN \<Rightarrow> NaN))"

section \<open>The derivation chain\<close>

definition calculate_flux_area_product :: "'a InputParameters_scheme \<Rightarrow> real" where
  "calculate_flux_area_product self = flux self * pixel_area self"

definition calculate_flux_area_frame_duration_product :: "'a InputParameters_scheme \<Rightarrow> real" where
  "calculate_flux_area_frame_duration_product self =
     flux self * pixel_area self * frame_duration self"

definition calculate_pixel_occupancy :: "'a InputParameters_scheme \<Rightarrow> real" where
  "calculate_pixel_occupancy self =
     (let lambda_pixel = calculate_flux_area_frame_duration_product self
      in 1 - exp (- lambda_pixel))"

text \<open>
  Lines 31 to 33 of \<open>calculate_pixel_entropy\<close>, as a function of the local variable
  \<open>occupancy\<close>.
\<close>

definition entropy_of_occupancy :: "real \<Rightarrow> pyfloat" where
  "entropy_of_occupancy occupancy =
     (if occupancy = 0 \<or> occupancy = 1 then Num 0
      else fsub (fmul (Num (- occupancy)) (np_log2 occupancy))
                (fmul (Num (1 - occupancy)) (np_log2 (1 - occupancy))))"

definition calculate_pixel_entropy :: "'a InputParameters_scheme \<Rightarrow> pyfloat" where
  "calculate_pixel_entropy self =
     (let occupancy = calculate_pixel_occupancy self
      in entropy_of_occupancy occupancy)"

definition calculate_entropy_per_cm2 :: "'a InputParameters_scheme \<Rightarrow> error + pyfloat" where
  "calculate_entropy_per_cm2 self =
     py_truediv (calculate_pixel_entropy self) (pixel_area self)"

definition calculate_entropy_per_cm2_per_s :: "'a InputParameters_scheme \<Rightarrow> error + pyfloat" where
  "calculate_entropy_per_cm2_per_s self =
     (case calculate_entropy_per_cm2 self of
        Inl e \<Rightarrow> Inl e
      | Inr h \<Rightarrow> py_truediv h (frame_duration self))"

section \<open>The methods as state transformers\<close>

text \<open>
  An instance of a Python class is a dictionary of attributes. The dataclass declares three
  fields and no \<open>__slots__\<close>, so an instance can hold further attributes beside them (a
  stored result, for example): these are \<open>other_attributes\<close>. A method receives the
  instance as \<open>self\<close> and could assign to any attribute of it, or read any. The six methods
  are embedded here once more, each as a function from the instance it is called on to its
  result and the instance it leaves behind; a call of another method on \<open>self\<close> hands on
  the instance which that call leaves (\<open>self'\<close>), and the attribute read after the call is
  read from there. No line of the six methods assigns to an attribute, so no function
  below has an update. That they return the instance as it was, that their results do not
  depend on the other attributes, and that their results are the values of the functions
  of the section before, is proved in the last section. The warnings that numpy prints are
  not part of the state.
\<close>

record Instance = InputParameters +
  other_attributes :: "string \<rightharpoonup> pyfloat"

definition calculate_flux_area_product_st :: "Instance \<Rightarrow> real \<times> Instance" where
  "calculate_flux_area_product_st self = (flux self * pixel_area self, self)"

definition calculate_flux_area_frame_duration_product_st :: "Instance \<Rightarrow> real \<times> Instance" where
  "calculate_flux_area_frame_duration_product_st self =
     (flux self * pixel_area self * frame_duration self, self)"

definition calculate_pixel_occupancy_st :: "Instance \<Rightarrow> real \<times> Instance" where
  "calculate_pixel_occupancy_st self =
     (let (lambda_pixel, self') = calculate_flux_area_frame_duration_product_st self
      in (1 - exp (- lambda_pixel), self'))"

definition calculate_pixel_entropy_st :: "Instance \<Rightarrow> pyfloat \<times> Instance" where
  "calculate_pixel_entropy_st self =
     (let (occupancy, self') = calculate_pixel_occupancy_st self
      in (entropy_of_occupancy occupancy, self'))"

definition calculate_entropy_per_cm2_st :: "Instance \<Rightarrow> (error + pyfloat) \<times> Instance" where
  "calculate_entropy_per_cm2_st self =
     (let (pixel_entropy, self') = calculate_pixel_entropy_st self
      in (py_truediv pixel_entropy (pixel_area self'), self'))"

definition calculate_entropy_per_cm2_per_s_st :: "Instance \<Rightarrow> (error + pyfloat) \<times> Instance" where
  "calculate_entropy_per_cm2_per_s_st self =
     (let (entropy_per_cm2, self') = calculate_entropy_per_cm2_st self
      in case entropy_per_cm2 of
           Inl e \<Rightarrow> (Inl e, self')
         | Inr h \<Rightarrow> (py_truediv h (frame_duration self'), self'))"


section \<open>The three sweeps\<close>

text \<open>
  The module runs the same loop three times (lines 149 to 156, 175 to 182 and 201 to 208),
  each time on a fresh instance and over a list of values for one field: assign the value
  to the field of the shared instance, evaluate \<open>calculate_entropy_per_cm2_per_s\<close>, append
  the pair to the list of results (\<open>v\<close> is the loop variable, \<open>vs\<close> the values still to
  come). The loop state is the instance and the list; an exception leaves the loop.
\<close>

fun flux_loop ::
  "InputParameters \<Rightarrow> real list \<Rightarrow> (real \<times> pyfloat) list
     \<Rightarrow> error + InputParameters \<times> (real \<times> pyfloat) list" where
  "flux_loop inputParameters [] entropy_results = Inr (inputParameters, entropy_results)"
| "flux_loop inputParameters (v # vs) entropy_results =
     (case setattr_flux inputParameters v of
        Inl e \<Rightarrow> Inl e
      | Inr inputParameters' \<Rightarrow>
          (case calculate_entropy_per_cm2_per_s inputParameters' of
             Inl e \<Rightarrow> Inl e
           | Inr entropy_per_cm2_per_s \<Rightarrow>
               flux_loop inputParameters' vs (entropy_results @ [(v, entropy_per_cm2_per_s)])))"

fun frame_duration_loop ::
  "InputParameters \<Rightarrow> real list \<Rightarrow> (real \<times> pyfloat) list
     \<Rightarrow> error + InputParameters \<times> (real \<times> pyfloat) list" where
  "frame_duration_loop inputParameters [] entropy_vs_duration_results =
     Inr (inputParameters, entropy_vs_duration_results)"
| "frame_duration_loop inputParameters (v # vs) entropy_vs_duration_results =
     (case setattr_frame_duration inputParameters v of
        Inl e \<Rightarrow> Inl e
      | Inr inputParameters' \<Rightarrow>
          (case calculate_entropy_per_cm2_per_s inputParameters' of
             Inl e \<Rightarrow> Inl e
           | Inr entropy_per_cm2_per_s \<Rightarrow>
               frame_duration_loop inputParameters' vs
                 (entropy_vs_duration_results @ [(v, entropy_per_cm2_per_s)])))"

fun pixel_area_loop ::
  "InputParameters \<Rightarrow> real list \<Rightarrow> (real \<times> pyfloat) list
     \<Rightarrow> error + InputParameters \<times> (real \<times> pyfloat) list" where
  "pixel_area_loop inputParameters [] entropy_vs_pixel_area_results =
     Inr (inputParameters, entropy_vs_pixel_area_results)"
| "pixel_area_loop inputParameters (v # vs) entropy_vs_pixel_area_results =
     (case setattr_pixel_area inputParameters v of
        Inl e \<Rightarrow> Inl e
      | Inr inputParameters' \<Rightarrow>
          (case calculate_entropy_per_cm2_per_s inputParameters' of
             Inl e \<Rightarrow> Inl e
           | Inr entropy_per_cm2_per_s \<Rightarrow>
               pixel_area_loop inputParameters' vs
                 (entropy_vs_pixel_area_results @ [(v, entropy_per_cm2_per_s)])))"

text \<open>The instance and the lists of values of the module (lines 140 to 143, 169, 195).\<close>

definition base_parameters :: InputParameters where
  "base_parameters = \<lparr>flux = 10 ^ 8, pixel_area = 1 / 10 ^ 6, frame_duration = 1 / 10 ^ 7\<rparr>"

definition flux_values :: "real list" where
  "flux_values = [10 ^ 6, 2 * 10 ^ 6, 5 * 10 ^ 6, 10 ^ 7, 2 * 10 ^ 7, 5 * 10 ^ 7, 10 ^ 8]"

definition frame_duration_values :: "real list" where
  "frame_duration_values = [1 / 10 ^ 7, 2 / 10 ^ 7, 5 / 10 ^ 7, 1 / 10 ^ 6, 2 / 10 ^ 6]"

definition pixel_area_values :: "real list" where
  "pixel_area_values =
     [1 / 10 ^ 6, 15 / 10 ^ 7, 2 / 10 ^ 6, 25 / 10 ^ 7, 3 / 10 ^ 6, 35 / 10 ^ 7, 4 / 10 ^ 6]"

section \<open>Occupancy and entropy in binary64\<close>

text \<open>
  A Python float is an IEEE 754 binary64 number, and every operation returns the binary64
  number nearest to the exact result (ties to the even significand), or an infinity when
  that number would be \<open>2 ^ 1024\<close> or more in magnitude.
  \<^item> \<open>rne\<close> rounds a real to the nearest integer, ties to even;
  \<^item> \<open>expo64 x\<close> is the exponent \<open>e\<close> of the binade \<open>2 ^ e \<le> \<bar>x\<bar> < 2 ^ (e + 1)\<close> of \<open>x\<close>, and
    \<open>- 1022\<close> for subnormal \<open>x\<close>;
  \<^item> \<open>ulp64 x\<close> is the spacing \<open>2 ^ (e - 52)\<close> of the binary64 numbers there;
  \<^item> \<open>nearest64 x\<close> is the nearest multiple of that spacing, the rounded value before the
    test for overflow.
  The two zeros are not told apart. \<open>np.exp\<close> and \<open>np.log2\<close> are taken to return the
  binary64 number nearest to the exact value; the three fields are the numbers the
  instance holds.
\<close>

definition rne :: "real \<Rightarrow> int" where
  "rne y =
     (let f = \<lfloor>y\<rfloor>; r = y - of_int f
      in if r < 1 / 2 then f
         else if 1 / 2 < r then f + 1
         else if even f then f else f + 1)"

definition expo64 :: "real \<Rightarrow> int" where
  "expo64 x = max \<lfloor>log 2 \<bar>x\<bar>\<rfloor> (- 1022)"

definition ulp64 :: "real \<Rightarrow> real" where
  "ulp64 x = 2 powr (of_int (expo64 x) - 52)"

definition nearest64 :: "real \<Rightarrow> real" where
  "nearest64 x = ulp64 x * of_int (rne (x / ulp64 x))"

definition round64 :: "real \<Rightarrow> pyfloat" where
  "round64 x =
     (if x = 0 then Num 0
      else let y = nearest64 x
           in if 2 ^ 1024 \<le> \<bar>y\<bar> then (if 0 < x then PosInf else NegInf) else Num y)"

definition mul64 :: "pyfloat \<Rightarrow> pyfloat \<Rightarrow> pyfloat" where
  "mul64 x y = (case fmul x y of Num r \<Rightarrow> round64 r | s \<Rightarrow> s)"

definition sub64 :: "pyfloat \<Rightarrow> pyfloat \<Rightarrow> pyfloat" where
  "sub64 x y = (case fsub x y of Num r \<Rightarrow> round64 r | s \<Rightarrow> s)"

definition neg64 :: "pyfloat \<Rightarrow> pyfloat" where
  "neg64 x = (case x of Num r \<Rightarrow> Num (- r) | PosInf \<Rightarrow> NegInf | NegInf \<Rightarrow> PosInf | NaN \<Rightarrow> NaN)"

definition np_exp64 :: "pyfloat \<Rightarrow> pyfloat" where
  "np_exp64 x =
     (case x of Num r \<Rightarrow> round64 (exp r) | PosInf \<Rightarrow> PosInf | NegInf \<Rightarrow> Num 0 | NaN \<Rightarrow> NaN)"

definition np_log2_64 :: "pyfloat \<Rightarrow> pyfloat" where
  "np_log2_64 x =
     (case x of
        Num r \<Rightarrow> (if 0 < r then round64 (log 2 r) else if r = 0 then NegInf else NaN)
      | PosInf \<Rightarrow> PosInf
      | NegInf \<Rightarrow> NaN
      | NaN \<Rightarrow> NaN)"

text \<open>Lines 17, 21, 25 to 26 and 30 to 33 again, every operation rounded.\<close>

definition calculate_flux_area_product_b64 :: "'a InputParameters_scheme \<Rightarrow> pyfloat" where
  "calculate_flux_area_product_b64 self = mul64 (Num (flux self)) (Num (pixel_area self))"

definition calculate_flux_area_frame_duration_product_b64 ::
  "'a InputParameters_scheme \<Rightarrow> pyfloat" where
  "calculate_flux_area_frame_duration_product_b64 self =
     mul64 (mul64 (Num (flux self)) (Num (pixel_area self))) (Num (frame_duration self))"

definition calculate_pixel_occupancy_b64 :: "'a InputParameters_scheme \<Rightarrow> pyfloat" where
  "calculate_pixel_occupancy_b64 self =
     (let lambda_pixel = calculate_flux_area_frame_duration_product_b64 self
      in sub64 (Num 1) (np_exp64 (neg64 lambda_pixel)))"

definition entropy_of_occupancy_b64 :: "pyfloat \<Rightarrow> pyfloat" where
  "entropy_of_occupancy_b64 occupancy =
     (if occupancy = Num 0 \<or> occupancy = Num 1 then Num 0
      else sub64 (mul64 (neg64 occupancy) (np_log2_64 occupancy))
                 (mul64 (sub64 (Num 1) occupancy) (np_log2_64 (sub64 (Num 1) occupancy))))"

definition calculate_pixel_entropy_b64 :: "'a InputParameters_scheme \<Rightarrow> pyfloat" where
  "calculate_pixel_entropy_b64 self =
     (let occupancy = calculate_pixel_occupancy_b64 self
      in entropy_of_occupancy_b64 occupancy)"

section \<open>The occupancy formula\<close>

text \<open>
  C2. For every parameter set the occupancy is \<open>1 - exp (- \<lambda>)\<close>, where \<open>\<lambda>\<close>, the mean
  number of hits per frame, is flux times pixel area times frame duration; the mean number
  of hits per second is flux times pixel area. In binary64 the same expressions, each
  operation rounded, the product taken from the left.
\<close>

theorem occupancy_formula:
  "calculate_pixel_occupancy self = 1 - exp (- calculate_flux_area_frame_duration_product self)
   \<and> calculate_flux_area_frame_duration_product self
       = flux self * pixel_area self * frame_duration self
   \<and> calculate_flux_area_product self = flux self * pixel_area self
   \<and> calculate_pixel_occupancy_b64 self
       = sub64 (Num 1) (np_exp64 (neg64 (calculate_flux_area_frame_duration_product_b64 self)))
   \<and> calculate_flux_area_frame_duration_product_b64 self
       = mul64 (calculate_flux_area_product_b64 self) (Num (frame_duration self))
   \<and> calculate_flux_area_product_b64 self = mul64 (Num (flux self)) (Num (pixel_area self))"
  by (simp add: calculate_pixel_occupancy_def calculate_flux_area_frame_duration_product_def
      calculate_flux_area_product_def calculate_pixel_occupancy_b64_def
      calculate_flux_area_frame_duration_product_b64_def calculate_flux_area_product_b64_def)

section \<open>Rounding to binary64\<close>

lemma rne_nonneg: "0 \<le> y \<Longrightarrow> 0 \<le> rne y"
  by (auto simp: rne_def Let_def)

lemma rne_le_int: "y \<le> of_int n \<Longrightarrow> rne y \<le> n"
proof -
  assume a: "y \<le> of_int n"
  then have f: "\<lfloor>y\<rfloor> \<le> n" by (simp add: floor_le_iff) 
  show ?thesis
  proof (cases "\<lfloor>y\<rfloor> = n")
    case True
    then have "y = of_int n" using a of_int_floor_le[of y] by linarith
    then show ?thesis by (simp add: rne_def)
  next
    case False
    then have "\<lfloor>y\<rfloor> + 1 \<le> n" using f by linarith
    then show ?thesis by (auto simp: rne_def Let_def)
  qed
qed

lemma rne_of_int: "rne (of_int n) = n"
  by (simp add: rne_def)

lemma rne_bounds: "\<lfloor>y\<rfloor> \<le> rne y \<and> rne y \<le> \<lfloor>y\<rfloor> + 1"
  by (simp add: rne_def Let_def)

lemma rne_mono:
  assumes "x \<le> y"
  shows "rne x \<le> rne y"
proof (cases "\<lfloor>x\<rfloor> = \<lfloor>y\<rfloor>")
  case True
  have "x - of_int \<lfloor>x\<rfloor> \<le> y - of_int \<lfloor>y\<rfloor>" using assms True by simp
  then show ?thesis using True by (auto simp: rne_def Let_def)
next
  case False
  have "\<lfloor>x\<rfloor> \<le> \<lfloor>y\<rfloor>" using assms by (rule floor_mono)
  with False have "\<lfloor>x\<rfloor> + 1 \<le> \<lfloor>y\<rfloor>" by simp
  then show ?thesis using rne_bounds [of x] rne_bounds [of y] by linarith
qed

lemma rne_ge_int: "of_int n \<le> y \<Longrightarrow> n \<le> rne y"
  using rne_mono [of "of_int n" y] by (simp add: rne_of_int)

lemma ulp64_pos: "0 < ulp64 x"
  by (simp add: ulp64_def)

lemma ulp64_expo: "ulp64 x = 2 powr (of_int (expo64 x) - 52)"
  by (simp add: ulp64_def)

lemma round64_unit:
  assumes "0 \<le> x" "x \<le> 1"
  shows "\<exists>y. round64 x = Num y \<and> 0 \<le> y \<and> y \<le> 1"
proof (cases "x = 0")
  case True
  then show ?thesis by (simp add: round64_def)
next
  case False
  with assms have pos: "0 < x" by simp
  define e where "e = max \<lfloor>log 2 \<bar>x\<bar>\<rfloor> (- 1022)"
  define N :: int where "N = 2 ^ nat (52 - e)"
  have "log 2 \<bar>x\<bar> \<le> 0" using pos assms by simp
  then have "\<lfloor>log 2 \<bar>x\<bar>\<rfloor> \<le> 0" by (simp add: floor_le_iff)
  then have e0: "e \<le> 0" by (simp add: e_def)
  have u: "ulp64 x = 2 powr (of_int (e - 52))"
    by (simp add: ulp64_def expo64_def e_def)
  have "2 powr (of_int (e - 52)) = inverse (2 ^ nat (52 - e) :: real)"
    using e0 by (subst powr_real_of_int) simp_all
  then have uN: "ulp64 x * of_int N = 1"
    by (simp add: u N_def)
  have "x / ulp64 x \<le> 1 / ulp64 x"
    using assms ulp64_pos[of x] by (simp add: divide_right_mono)
  also have "1 / ulp64 x = of_int N"
    using uN ulp64_pos[of x] by (simp add: field_simps)
  finally have "rne (x / ulp64 x) \<le> N" by (rule rne_le_int)
  then have "ulp64 x * of_int (rne (x / ulp64 x)) \<le> ulp64 x * of_int N"
    using ulp64_pos[of x] by (simp add: mult_left_mono)
  then have hi: "ulp64 x * of_int (rne (x / ulp64 x)) \<le> 1"
    using uN by simp
  have "0 \<le> rne (x / ulp64 x)"
    using assms ulp64_pos[of x] by (intro rne_nonneg) simp
  then have lo: "0 \<le> ulp64 x * of_int (rne (x / ulp64 x))"
    using ulp64_pos[of x] by simp
  have "\<not> (2 ^ 1024 \<le> \<bar>ulp64 x * of_int (rne (x / ulp64 x))\<bar>)"
  proof -
    have "\<bar>ulp64 x * of_int (rne (x / ulp64 x))\<bar> \<le> 1" using lo hi by simp
    moreover have "(1::real) < 2 ^ 1024" by simp
    ultimately show ?thesis by linarith
  qed
  then have "round64 x = Num (ulp64 x * of_int (rne (x / ulp64 x)))"
    using False by (simp add: round64_def nearest64_def Let_def)
  with lo hi show ?thesis by blast
qed

lemma round64_nonneg:
  assumes "0 \<le> x"
  shows "round64 x = PosInf \<or> (\<exists>y. round64 x = Num y \<and> 0 \<le> y)"
proof (cases "x = 0")
  case True
  then show ?thesis by (simp add: round64_def)
next
  case False
  with assms have pos: "0 < x" by simp
  have "0 \<le> rne (x / ulp64 x)"
    using assms ulp64_pos[of x] by (intro rne_nonneg) simp
  then have "0 \<le> ulp64 x * of_int (rne (x / ulp64 x))"
    using ulp64_pos[of x] by simp
  then show ?thesis using pos by (simp add: round64_def nearest64_def Let_def)
qed

lemma log2_inverse_power: "log 2 (1 / 2 ^ n) = - real n"
  by (simp add: log_divide_pos log_nat_power)

lemma round64_power2:
  assumes "k < 1024"
  shows "round64 (2 ^ k) = Num (2 ^ k)"
proof -
  have l: "\<lfloor>log 2 \<bar>2 ^ k :: real\<bar>\<rfloor> = int k"
    by (simp add: log_nat_power)
  then have "max \<lfloor>log 2 \<bar>2 ^ k :: real\<bar>\<rfloor> (- 1022) = int k" by simp
  then have u: "ulp64 (2 ^ k) = 2 powr (real k - 52)"
    by (simp add: ulp64_def expo64_def)
  have "2 ^ k / ulp64 (2 ^ k) = 2 powr (real k) / 2 powr (real k - 52)"
    by (simp add: u powr_realpow)
  also have "\<dots> = 2 powr 52"
    by (simp add: powr_diff [symmetric])
  also have "\<dots> = of_int (2 ^ 52)"
    by (simp add: powr_realpow [of 2 52, simplified])
  finally have q: "2 ^ k / ulp64 (2 ^ k) = of_int (2 ^ 52)" .
  have "ulp64 (2 ^ k) * of_int (rne (2 ^ k / ulp64 (2 ^ k))) = ulp64 (2 ^ k) * of_int (2 ^ 52)"
    unfolding q rne_of_int ..
  also have "\<dots> = ulp64 (2 ^ k) * (2 ^ k / ulp64 (2 ^ k))"
    unfolding q ..
  also have "\<dots> = 2 ^ k" using ulp64_pos[of "2 ^ k"] by simp
  finally have y: "ulp64 (2 ^ k) * of_int (rne (2 ^ k / ulp64 (2 ^ k))) = 2 ^ k" .
  have "(2::real) ^ k < 2 ^ 1024" using assms by (intro power_strict_increasing) simp_all
  then have "\<not> (2 ^ 1024 \<le> \<bar>2 ^ k :: real\<bar>)" by simp
  then show ?thesis unfolding round64_def nearest64_def Let_def y by simp
qed

lemma round64_inverse_power2:
  assumes "k \<le> 1022"
  shows "round64 (1 / 2 ^ k) = Num (1 / 2 ^ k)"
proof -
  have "log 2 \<bar>1 / 2 ^ k :: real\<bar> = of_int (- int k)"
    by (simp add: log2_inverse_power)
  then have "\<lfloor>log 2 \<bar>1 / 2 ^ k :: real\<bar>\<rfloor> = - int k"
    by (simp only: floor_of_int)
  then have e: "expo64 (1 / 2 ^ k) = - int k" using assms by (simp add: expo64_def)
  have p: "(1 / 2 ^ k :: real) = 2 powr (- real k)"
    by (simp add: powr_minus powr_realpow inverse_eq_divide)
  have u: "ulp64 (1 / 2 ^ k) = 2 powr (- real k - 52)"
    by (simp add: ulp64_def e)
  have "(1 / 2 ^ k) / ulp64 (1 / 2 ^ k) = (1 / 2 ^ k) / 2 powr (- real k - 52)"
    by (simp only: u)
  also have "\<dots> = 2 powr (- real k) / 2 powr (- real k - 52)"
    by (simp only: p)
  also have "\<dots> = 2 powr 52"
    by (simp add: powr_diff [symmetric])
  also have "\<dots> = of_int (2 ^ 52)"
    using powr_realpow [of 2 52] by simp
  finally have q: "(1 / 2 ^ k) / ulp64 (1 / 2 ^ k) = of_int (2 ^ 52)" .
  have "nearest64 (1 / 2 ^ k) = ulp64 (1 / 2 ^ k) * of_int (2 ^ 52)"
    unfolding nearest64_def q rne_of_int ..
  also have "\<dots> = ulp64 (1 / 2 ^ k) * ((1 / 2 ^ k) / ulp64 (1 / 2 ^ k))"
    unfolding q ..
  also have "\<dots> = 1 / 2 ^ k" using ulp64_pos [of "1 / 2 ^ k"] by simp
  finally have y: "nearest64 (1 / 2 ^ k) = 1 / 2 ^ k" .
  have "\<bar>1 / 2 ^ k :: real\<bar> \<le> 1" by (simp add: divide_le_eq)
  moreover have "(1::real) < 2 ^ 1024" by simp
  ultimately have "\<not> (2 ^ 1024 \<le> \<bar>1 / 2 ^ k :: real\<bar>)" by linarith
  then show ?thesis unfolding round64_def Let_def y by simp
qed

lemma expo64_mono:
  assumes "0 < x" "x \<le> y"
  shows "expo64 x \<le> expo64 y"
proof -
  have "log 2 x \<le> log 2 y" using assms by simp
  then have "\<lfloor>log 2 \<bar>x\<bar>\<rfloor> \<le> \<lfloor>log 2 \<bar>y\<bar>\<rfloor>" using assms by (simp add: floor_mono)
  then show ?thesis by (simp add: expo64_def)
qed

lemma below_next_binade:
  assumes "0 < x"
  shows "x < 2 powr (of_int (expo64 x) + 1)"
proof -
  have "log 2 x < of_int \<lfloor>log 2 x\<rfloor> + 1" by linarith
  also have "\<dots> \<le> of_int (expo64 x) + 1" using assms by (simp add: expo64_def)
  finally have "log 2 x < of_int (expo64 x) + 1" .
  then have "2 powr (log 2 x) < 2 powr (of_int (expo64 x) + 1)" by simp
  then show ?thesis using assms by simp
qed

lemma nearest64_le_next_binade:
  assumes "0 < x"
  shows "nearest64 x \<le> 2 powr (of_int (expo64 x) + 1)"
proof -
  have u: "0 < ulp64 x" by (rule ulp64_pos)
  have "2 powr (of_int (expo64 x) + 1) / ulp64 x = 2 powr 53"
    by (simp add: ulp64_expo powr_diff [symmetric])
  also have "\<dots> = of_int (2 ^ 53)"
    using powr_realpow [of 2 53] by simp
  finally have q: "2 powr (of_int (expo64 x) + 1) / ulp64 x = of_int (2 ^ 53)" .
  have "x / ulp64 x \<le> 2 powr (of_int (expo64 x) + 1) / ulp64 x"
    using below_next_binade [OF assms] u by (simp add: divide_right_mono)
  then have "rne (x / ulp64 x) \<le> 2 ^ 53" unfolding q by (rule rne_le_int)
  then have "of_int (rne (x / ulp64 x)) \<le> (of_int (2 ^ 53) :: real)"
    by (simp only: of_int_le_iff)
  then have "ulp64 x * of_int (rne (x / ulp64 x)) \<le> ulp64 x * of_int (2 ^ 53)"
    using u by (simp only: mult_le_cancel_left_pos)
  also have "\<dots> = ulp64 x * (2 powr (of_int (expo64 x) + 1) / ulp64 x)" unfolding q ..
  also have "\<dots> = 2 powr (of_int (expo64 x) + 1)" using u by simp
  finally show ?thesis by (simp add: nearest64_def)
qed

lemma nearest64_ge_binade:
  assumes "0 < y" "- 1022 < expo64 y"
  shows "2 powr (of_int (expo64 y)) \<le> nearest64 y"
proof -
  have u: "0 < ulp64 y" by (rule ulp64_pos)
  have e: "expo64 y = \<lfloor>log 2 y\<rfloor>" using assms by (simp add: expo64_def max_def split: if_splits)
  have "of_int (expo64 y) \<le> log 2 y" unfolding e by simp
  then have "2 powr (of_int (expo64 y)) \<le> 2 powr (log 2 y)" by simp
  then have b: "2 powr (of_int (expo64 y)) \<le> y" using assms by simp
  have "2 powr (of_int (expo64 y)) / ulp64 y = 2 powr 52"
    by (simp add: ulp64_expo powr_diff [symmetric])
  also have "\<dots> = of_int (2 ^ 52)"
    using powr_realpow [of 2 52] by simp
  finally have q: "2 powr (of_int (expo64 y)) / ulp64 y = of_int (2 ^ 52)" .
  have "2 powr (of_int (expo64 y)) / ulp64 y \<le> y / ulp64 y"
    using b u by (simp add: divide_right_mono)
  then have "2 ^ 52 \<le> rne (y / ulp64 y)" unfolding q by (rule rne_ge_int)
  then have "(of_int (2 ^ 52) :: real) \<le> of_int (rne (y / ulp64 y))"
    by (simp only: of_int_le_iff)
  then have "ulp64 y * of_int (2 ^ 52) \<le> ulp64 y * of_int (rne (y / ulp64 y))"
    using u by (simp only: mult_le_cancel_left_pos)
  moreover have "ulp64 y * of_int (2 ^ 52) = ulp64 y * (2 powr (of_int (expo64 y)) / ulp64 y)"
    unfolding q ..
  moreover have "\<dots> = 2 powr (of_int (expo64 y))" using u by simp
  ultimately show ?thesis by (simp add: nearest64_def)
qed

lemma nearest64_mono:
  assumes "0 < x" "x \<le> y"
  shows "nearest64 x \<le> nearest64 y"
proof (cases "expo64 x = expo64 y")
  case True
  then have u: "ulp64 x = ulp64 y" by (simp add: ulp64_expo)
  have "x / ulp64 y \<le> y / ulp64 y"
    using assms ulp64_pos [of y] by (simp add: divide_right_mono)
  then have "rne (x / ulp64 y) \<le> rne (y / ulp64 y)" by (rule rne_mono)
  then have "(of_int (rne (x / ulp64 y)) :: real) \<le> of_int (rne (y / ulp64 y))"
    by (simp only: of_int_le_iff)
  then show ?thesis
    using ulp64_pos [of y] unfolding nearest64_def u by (simp only: mult_le_cancel_left_pos)
next
  case False
  with expo64_mono [OF assms] have lt: "expo64 x + 1 \<le> expo64 y" by simp
  have "- 1022 \<le> expo64 x" by (simp add: expo64_def)
  with lt have "- 1022 < expo64 y" by simp
  from nearest64_ge_binade [OF _ this] assms
  have "2 powr (of_int (expo64 y)) \<le> nearest64 y" by simp
  moreover have "nearest64 x \<le> 2 powr (of_int (expo64 x) + 1)"
    using assms by (intro nearest64_le_next_binade)
  moreover have "(2::real) powr (of_int (expo64 x) + 1) \<le> 2 powr (of_int (expo64 y))"
  proof -
    have "(of_int (expo64 x) + 1 :: real) = of_int (expo64 x + 1)" by simp
    also have "\<dots> \<le> of_int (expo64 y)" using lt by (simp only: of_int_le_iff)
    finally show ?thesis by simp
  qed
  ultimately show ?thesis by linarith
qed

lemma nearest64_nonneg: "0 \<le> x \<Longrightarrow> 0 \<le> nearest64 x"
  using rne_nonneg [of "x / ulp64 x"] ulp64_pos [of x] by (simp add: nearest64_def)

lemma round64_of_nonneg:
  assumes "0 \<le> x"
  shows "round64 x = (if 2 ^ 1024 \<le> nearest64 x then PosInf else Num (nearest64 x))"
proof (cases "x = 0")
  case True
  then show ?thesis by (simp add: round64_def nearest64_def rne_def)
next
  case False
  then show ?thesis using assms nearest64_nonneg [OF assms] by (simp add: round64_def Let_def)
qed

lemma round64_mono:
  assumes "0 \<le> x" "x \<le> y" "round64 y = Num v"
  shows "\<exists>u. round64 x = Num u \<and> u \<le> v"
proof -
  have y: "0 \<le> y" using assms by simp
  have le: "nearest64 x \<le> nearest64 y"
  proof (cases "x = 0")
    case True
    then show ?thesis using nearest64_nonneg [OF y] by (simp add: nearest64_def rne_def)
  next
    case False
    then show ?thesis using assms by (intro nearest64_mono) simp_all
  qed
  from assms(3) have "\<not> 2 ^ 1024 \<le> nearest64 y" "v = nearest64 y"
    unfolding round64_of_nonneg [OF y] by (simp_all split: if_splits)
  with le show ?thesis unfolding round64_of_nonneg [OF assms(1)] by simp
qed

lemma round64_near_one:
  assumes "0 \<le> z" "z \<le> 1 / 2 ^ 54"
  shows "round64 (1 - z) = Num 1"
proof (cases "z = 0")
  case True
  then show ?thesis using round64_power2 [of 0] by simp
next
  case False
  define x where "x = 1 - z"
  have z: "0 < z" using False assms by simp
  have "(1 / 2 ^ 54 :: real) \<le> 1 / 2" by simp
  then have x: "1 / 2 \<le> x" "x < 1" using assms z by (simp_all add: x_def)
  have "log 2 (1 / 2) \<le> log 2 x" using x by (subst log_le_cancel_iff) simp_all
  moreover have "log 2 (1 / 2 :: real) = - 1" using log2_inverse_power [of 1] by simp
  moreover have "log 2 x < 0" using x by simp
  ultimately have "\<lfloor>log 2 \<bar>x\<bar>\<rfloor> = - 1" using x by (simp add: floor_eq_iff)
  then have e: "expo64 x = - 1" by (simp add: expo64_def)
  have "ulp64 x = 2 powr (of_int (- 53))" by (simp add: ulp64_def e)
  also have "\<dots> = inverse (2 ^ 53)" by (subst powr_real_of_int) simp_all
  finally have u: "ulp64 x = 1 / 2 ^ 53" by (simp add: inverse_eq_divide)
  have "x / ulp64 x = x * 2 ^ 53" by (simp add: u)
  also have "\<dots> = 2 ^ 53 - z * 2 ^ 53" by (simp add: x_def algebra_simps)
  finally have q: "x / ulp64 x = 2 ^ 53 - z * 2 ^ 53" .
  have "z * 2 ^ 53 \<le> (1 / 2 ^ 54) * 2 ^ 53" using assms by (intro mult_right_mono) simp_all
  then have hi: "z * 2 ^ 53 \<le> 1 / 2" by simp
  have lo: "0 < z * 2 ^ 53" using z by simp
  have f: "\<lfloor>x / ulp64 x\<rfloor> = 2 ^ 53 - 1"
    unfolding q using hi lo by (simp add: floor_eq_iff)
  have r: "1 / 2 \<le> x / ulp64 x - of_int \<lfloor>x / ulp64 x\<rfloor>"
    unfolding f unfolding q using hi by simp
  have odd: "\<not> even (2 ^ 53 - 1 :: int)" by simp
  have "rne (x / ulp64 x) = 2 ^ 53"
    using r odd unfolding rne_def Let_def f by (simp add: not_less)
  then have "nearest64 x = 1" by (simp add: nearest64_def u)
  moreover have "x \<noteq> 0" using x by simp
  ultimately show ?thesis unfolding x_def [symmetric] round64_def Let_def by simp
qed

lemma rne_uminus: "rne (- y) = - rne y"
proof (cases "y = of_int \<lfloor>y\<rfloor>")
  case True
  then obtain n where "y = of_int n" ..
  then have "- y = of_int (- n)" by simp
  then show ?thesis using \<open>y = of_int n\<close> by (simp only: rne_of_int)
next
  case False
  then have lt: "of_int \<lfloor>y\<rfloor> < y" using of_int_floor_le [of y] by linarith
  have "\<lfloor>- y\<rfloor> = - \<lfloor>y\<rfloor> - 1"
    using lt by (simp add: floor_eq_iff) linarith
  then show ?thesis
    by (auto simp: rne_def Let_def)
qed

lemma nearest64_uminus: "nearest64 (- x) = - nearest64 x"
  by (simp add: nearest64_def ulp64_def expo64_def rne_uminus)

lemma round64_uminus: "round64 (- x) = neg64 (round64 x)"
  by (simp add: round64_def Let_def nearest64_uminus neg64_def)

lemma round64_fixed:
  assumes "x / ulp64 x = of_int n" "\<bar>x\<bar> < 2 ^ 1024"
  shows "round64 x = Num x"
proof -
  have "nearest64 x = ulp64 x * (x / ulp64 x)"
    unfolding nearest64_def assms(1) rne_of_int ..
  also have "\<dots> = x" using ulp64_pos [of x] by simp
  finally have "nearest64 x = x" .
  then show ?thesis using assms(2) by (simp add: round64_def Let_def)
qed

lemma power2_quotient:
  assumes "k \<le> n"
  shows "(1 / 2 ^ k) / (1 / 2 ^ n) = (2::real) ^ (n - k)"
proof -
  have "(2 :: real) ^ n = 2 ^ (n - k) * 2 ^ k"
    using assms by (simp add: power_add [symmetric])
  then show ?thesis by simp
qed

lemma round64_tiny_power2:
  assumes "k \<le> 1074"
  shows "round64 (1 / 2 ^ k) = Num (1 / 2 ^ k)"
proof (cases "k \<le> 1022")
  case True
  then show ?thesis by (rule round64_inverse_power2)
next
  case False
  have "log 2 \<bar>1 / 2 ^ k :: real\<bar> = of_int (- int k)"
    by (simp add: log2_inverse_power)
  then have "\<lfloor>log 2 \<bar>1 / 2 ^ k :: real\<bar>\<rfloor> = - int k"
    by (simp only: floor_of_int)
  then have e: "expo64 (1 / 2 ^ k) = - 1022" using False by (simp add: expo64_def)
  have "ulp64 (1 / 2 ^ k) = 2 powr (of_int (- 1074))" by (simp add: ulp64_def e)
  also have "\<dots> = inverse (2 ^ 1074)" by (subst powr_real_of_int) simp_all
  finally have u: "ulp64 (1 / 2 ^ k) = 1 / 2 ^ 1074" by (simp add: inverse_eq_divide)
  have "(1 / 2 ^ k) / ulp64 (1 / 2 ^ k) = (1 / 2 ^ k) / (1 / 2 ^ 1074)" by (simp only: u)
  also have "\<dots> = (2::real) ^ (1074 - k)" using assms by (rule power2_quotient)
  also have "\<dots> = of_int (2 ^ (1074 - k))" by simp
  finally have q: "(1 / 2 ^ k) / ulp64 (1 / 2 ^ k) = of_int (2 ^ (1074 - k))" .
  have "\<bar>1 / 2 ^ k :: real\<bar> \<le> 1" by (simp add: divide_le_eq)
  moreover have "(1::real) < 2 ^ 1024" by simp
  ultimately have "\<bar>1 / 2 ^ k :: real\<bar> < 2 ^ 1024" by linarith
  with q show ?thesis by (rule round64_fixed)
qed

lemma round64_between:
  assumes "1 / 2 ^ j \<le> x" "x \<le> 2 ^ k" "j \<le> 1074" "k < 1024"
  shows "\<exists>u. round64 x = Num u \<and> 1 / 2 ^ j \<le> u \<and> u \<le> 2 ^ k"
proof -
  have x0: "0 \<le> x"
  proof -
    have "(0::real) \<le> 1 / 2 ^ j" by simp
    with assms(1) show ?thesis by linarith
  qed
  from round64_mono [OF x0 assms(2) round64_power2 [OF assms(4)]]
  obtain u where u: "round64 x = Num u" "u \<le> 2 ^ k" by blast
  have "(0::real) \<le> 1 / 2 ^ j" by simp
  from round64_mono [OF this assms(1) u(1)] round64_tiny_power2 [OF assms(3)]
  have "1 / 2 ^ j \<le> u" by simp
  with u show ?thesis by blast
qed

lemma round64_upto:
  assumes "0 \<le> x" "x \<le> 2 ^ k" "k < 1024"
  shows "\<exists>u. round64 x = Num u \<and> 0 \<le> u \<and> u \<le> 2 ^ k"
proof -
  from round64_mono [OF assms(1,2) round64_power2 [OF assms(3)]]
  obtain u where u: "round64 x = Num u" "u \<le> 2 ^ k" by blast
  moreover have "0 \<le> u" using round64_nonneg [OF assms(1)] u(1) by simp
  ultimately show ?thesis by blast
qed

lemma b64_positive_ge_least:
  assumes "round64 p = Num p" "0 < p"
  shows "1 / 2 ^ 1074 \<le> p"
proof -
  have n: "nearest64 p = p" using assms by (simp add: round64_def Let_def split: if_splits)
  have u: "0 < ulp64 p" by (rule ulp64_pos)
  have "0 < of_int (rne (p / ulp64 p)) * ulp64 p"
    using n assms(2) by (simp add: nearest64_def mult.commute)
  then have "(0::real) < of_int (rne (p / ulp64 p))"
    using u by (simp add: zero_less_mult_iff)
  then have "1 \<le> rne (p / ulp64 p)" by simp
  then have "(1::real) \<le> of_int (rne (p / ulp64 p))" by simp
  then have "ulp64 p * 1 \<le> ulp64 p * of_int (rne (p / ulp64 p))"
    using u by (simp only: mult_le_cancel_left_pos)
  then have a: "ulp64 p \<le> p" using n by (simp add: nearest64_def)
  have "- 1022 \<le> expo64 p" by (simp add: expo64_def)
  then have "(of_int (- 1074) :: real) \<le> of_int (expo64 p) - 52" by simp
  then have "(2::real) powr (of_int (- 1074)) \<le> ulp64 p"
    unfolding ulp64_def by (simp only: powr_le_cancel_iff)
  moreover have "(2::real) powr (of_int (- 1074)) = inverse (2 ^ 1074)"
    by (subst powr_real_of_int) simp_all
  ultimately have "1 / 2 ^ 1074 \<le> ulp64 p" by (simp add: inverse_eq_divide)
  with a show ?thesis by linarith
qed

lemma b64_below_one:
  assumes "round64 p = Num p" "0 < p" "p < 1"
  shows "p \<le> 1 - 1 / 2 ^ 53"
proof (cases "p < 1 / 2")
  case True
  have "(1 / 2 :: real) \<le> 1 - 1 / 2 ^ 53" by simp
  with True show ?thesis by linarith
next
  case False
  then have x: "1 / 2 \<le> p" by simp
  have n: "nearest64 p = p" using assms by (simp add: round64_def Let_def split: if_splits)
  have "log 2 (1 / 2) \<le> log 2 p" using x assms by (subst log_le_cancel_iff) simp_all
  moreover have "log 2 (1 / 2 :: real) = - 1" using log2_inverse_power [of 1] by simp
  moreover have "log 2 p < 0" using assms by simp
  ultimately have "\<lfloor>log 2 \<bar>p\<bar>\<rfloor> = - 1" using assms by (simp add: floor_eq_iff)
  then have e: "expo64 p = - 1" by (simp add: expo64_def)
  have "ulp64 p = 2 powr (of_int (- 53))" by (simp add: ulp64_def e)
  also have "\<dots> = inverse (2 ^ 53)" by (subst powr_real_of_int) simp_all
  finally have u: "ulp64 p = 1 / 2 ^ 53" by (simp add: inverse_eq_divide)
  have "of_int (rne (p / ulp64 p)) / 2 ^ 53 = p" using n by (simp add: nearest64_def u)
  then have i: "of_int (rne (p / ulp64 p)) = p * 2 ^ 53" by (simp add: field_simps)
  have "p * 2 ^ 53 < 1 * 2 ^ 53" using assms by (intro mult_strict_right_mono) simp_all
  with i have "(of_int (rne (p / ulp64 p)) :: real) < of_int (2 ^ 53)" by simp
  then have "rne (p / ulp64 p) < 2 ^ 53" by (simp only: of_int_less_iff)
  then have "rne (p / ulp64 p) \<le> 2 ^ 53 - 1" by simp
  then have "(of_int (rne (p / ulp64 p)) :: real) \<le> of_int (2 ^ 53 - 1)"
    by (simp only: of_int_le_iff)
  with i have "p * 2 ^ 53 \<le> 2 ^ 53 - 1" by simp
  then show ?thesis by (simp add: field_simps)
qed

lemma round64_three_quarters: "round64 (3 / 4) = Num (3 / 4)"
proof -
  have "log 2 (1 / 2) \<le> log 2 (3 / 4)" by (subst log_le_cancel_iff) simp_all
  moreover have "log 2 (1 / 2 :: real) = - 1" using log2_inverse_power [of 1] by simp
  moreover have "log 2 (3 / 4 :: real) < 0" by simp
  ultimately have "\<lfloor>log 2 \<bar>3 / 4 :: real\<bar>\<rfloor> = - 1" by (simp add: floor_eq_iff)
  then have e: "expo64 (3 / 4) = - 1" by (simp add: expo64_def)
  have "ulp64 (3 / 4) = 2 powr (of_int (- 53))" by (simp add: ulp64_def e)
  also have "\<dots> = inverse (2 ^ 53)" by (subst powr_real_of_int) simp_all
  finally have u: "ulp64 (3 / 4) = 1 / 2 ^ 53" by (simp add: inverse_eq_divide)
  have "(3 / 4) / ulp64 (3 / 4) = of_int (3 * 2 ^ 51)" by (simp add: u)
  moreover have "\<bar>3 / 4 :: real\<bar> < 2 ^ 1024" by simp
  ultimately show ?thesis by (rule round64_fixed)
qed

subsection \<open>Numbers on a grid\<close>

text \<open>
  A real \<open>x\<close> with \<open>2 ^ 52 \<le> x * 2 ^ j < 2 ^ 53\<close> is rounded to the nearest multiple of
  \<open>2 ^ - j\<close>; every multiple \<open>m * 2 ^ - j\<close> with \<open>\<bar>m\<bar> < 2 ^ 53\<close> is a binary64 number; a
  number between 0 and 1 that was rounded once is left as it is by rounding it again.
\<close>

lemma rne_error: "\<bar>of_int (rne y) - y\<bar> \<le> 1 / 2"
proof -
  define f where "f = \<lfloor>y\<rfloor>"
  have "of_int f \<le> y" "y < of_int f + 1" unfolding f_def by linarith+
  then show ?thesis unfolding rne_def Let_def f_def [symmetric] by (simp add: abs_if)
qed

lemma rne_lt_half: "y < of_int n + 1 / 2 \<Longrightarrow> rne y \<le> n"
proof -
  assume a: "y < of_int n + 1 / 2"
  show ?thesis
  proof (cases "y \<le> of_int n")
    case True then show ?thesis by (rule rne_le_int)
  next
    case False
    then have "\<lfloor>y\<rfloor> = n" using a by (simp add: floor_eq_iff)
    then show ?thesis using a by (simp add: rne_def Let_def)
  qed
qed

lemma rne_gt_half: "of_int n + 1 / 2 < y \<Longrightarrow> n + 1 \<le> rne y"
proof -
  assume a: "of_int n + 1 / 2 < y"
  show ?thesis
  proof (cases "of_int (n + 1) \<le> y")
    case True then show ?thesis by (rule rne_ge_int)
  next
    case False
    then have "\<lfloor>y\<rfloor> = n" using a by (simp add: floor_eq_iff)
    then show ?thesis using a by (simp add: rne_def Let_def)
  qed
qed

lemma rne_tie_even: "even n \<Longrightarrow> rne (of_int n + 1 / 2) = n"
proof -
  assume e: "even n"
  have "\<lfloor>of_int n + 1 / 2 :: real\<rfloor> = n" by (simp add: floor_eq_iff)
  then show ?thesis using e by (simp add: rne_def Let_def)
qed

lemma log2_power: "log 2 (2 ^ n) = real n"
  by (simp add: log_nat_power)

lemma power2_split: "k \<le> n \<Longrightarrow> (2::real) ^ n = 2 ^ (n - k) * 2 ^ k"
  by (simp add: power_add [symmetric])

lemma round64_scaled:
  assumes "2 ^ 52 \<le> x * 2 ^ j" "x * 2 ^ j < 2 ^ 53" "j \<le> 1074"
  shows "round64 x = Num (of_int (rne (x * 2 ^ j)) / 2 ^ j)"
proof -
  have x: "0 < x"
  proof -
    have "(0::real) < 2 ^ 52" by simp
    with assms(1) have "0 < x * 2 ^ j" by linarith
    then show ?thesis by (simp add: zero_less_mult_iff)
  qed
  have l: "log 2 (x * 2 ^ j) = log 2 x + real j"
    using x by (simp add: log_mult_pos log_nat_power)
  have "log 2 (2 ^ 52) \<le> log 2 (x * 2 ^ j)"
    using assms(1) x by (subst log_le_cancel_iff) simp_all
  then have lo: "52 - real j \<le> log 2 x" unfolding l log2_power by simp
  have "log 2 (x * 2 ^ j) < log 2 (2 ^ 53)"
    using assms(2) x by (subst log_less_cancel_iff) simp_all
  then have hi: "log 2 x < 53 - real j" unfolding l log2_power by simp
  have "\<lfloor>log 2 \<bar>x\<bar>\<rfloor> = 52 - int j"
    using lo hi x by (simp add: floor_eq_iff)
  then have e: "expo64 x = 52 - int j" using assms(3) by (simp add: expo64_def)
  have "ulp64 x = 2 powr (of_int (- int j))" by (simp add: ulp64_def e)
  also have "\<dots> = inverse (2 ^ j)" by (subst powr_real_of_int) simp_all
  finally have u: "ulp64 x = 1 / 2 ^ j" by (simp add: inverse_eq_divide)
  have n: "nearest64 x = of_int (rne (x * 2 ^ j)) / 2 ^ j"
    by (simp add: nearest64_def u)
  have "rne (x * 2 ^ j) \<le> 2 ^ 53"
    using assms(2) by (intro rne_le_int) simp
  then have "(of_int (rne (x * 2 ^ j)) :: real) \<le> of_int (2 ^ 53)" by (simp only: of_int_le_iff)
  then have a: "(of_int (rne (x * 2 ^ j)) :: real) \<le> 2 ^ 53" by simp
  have "0 \<le> rne (x * 2 ^ j)" using x by (intro rne_nonneg) simp
  then have b: "(0::real) \<le> of_int (rne (x * 2 ^ j))" by simp
  have "of_int (rne (x * 2 ^ j)) / 2 ^ j \<le> (of_int (rne (x * 2 ^ j)) :: real)"
    using b by (simp add: divide_le_eq mult_le_cancel_left1)
  then have c: "of_int (rne (x * 2 ^ j)) / 2 ^ j \<le> (2 ^ 53 :: real)" using a by linarith
  have "(2 ^ 53 :: real) < 2 ^ 1024" by (intro power_strict_increasing) simp_all
  with c have "of_int (rne (x * 2 ^ j)) / 2 ^ j < (2 ^ 1024 :: real)" by (rule le_less_trans)
  moreover have "(0::real) \<le> of_int (rne (x * 2 ^ j)) / 2 ^ j" using b by simp
  ultimately have "\<not> 2 ^ 1024 \<le> \<bar>of_int (rne (x * 2 ^ j)) / 2 ^ j :: real\<bar>" by linarith
  then show ?thesis using x unfolding round64_def Let_def n by simp
qed

lemma round64_grid:
  assumes "\<bar>m\<bar> < 2 ^ 53" "j \<le> 1074"
  shows "round64 (of_int m / 2 ^ j) = Num (of_int m / 2 ^ j)"
proof (cases "m = 0")
  case True
  then show ?thesis by (simp add: round64_def)
next
  case False
  define x :: real where "x = of_int m / 2 ^ j"
  have x0: "x \<noteq> 0" using False by (simp add: x_def)
  have ax: "\<bar>x\<bar> = of_int \<bar>m\<bar> / 2 ^ j" by (simp add: x_def)
  have "(of_int \<bar>m\<bar> :: real) < of_int (2 ^ 53)" using assms(1) by (simp only: of_int_less_iff)
  then have m: "(of_int \<bar>m\<bar> :: real) < 2 ^ 53" by simp
  have "log 2 \<bar>x\<bar> = log 2 (of_int \<bar>m\<bar>) - real j"
    unfolding ax using False by (simp add: log_divide_pos log_nat_power)
  moreover have "log 2 (of_int \<bar>m\<bar>) < log 2 (2 ^ 53)"
    using m False by (subst log_less_cancel_iff) simp_all
  ultimately have "log 2 \<bar>x\<bar> < 53 - real j" unfolding log2_power by simp
  then have "\<lfloor>log 2 \<bar>x\<bar>\<rfloor> < 53 - int j" by (simp add: floor_less_iff)
  then have e: "expo64 x \<le> 52 - int j" using assms(2) by (simp add: expo64_def)
  define d where "d = nat (52 - int j - expo64 x)"
  have "ulp64 x * 2 ^ d = 2 powr (of_int (expo64 x) - 52) * 2 powr (real d)"
    by (simp add: ulp64_def powr_realpow)
  also have "\<dots> = 2 powr (of_int (expo64 x) - 52 + real d)" by (simp add: powr_add)
  also have "of_int (expo64 x) - 52 + real d = of_int (- int j)" using e by (simp add: d_def)
  also have "2 powr (of_int (- int j)) = inverse (2 ^ j :: real)"
    by (subst powr_real_of_int) simp_all
  finally have u: "ulp64 x * 2 ^ d = 1 / 2 ^ j" by (simp add: inverse_eq_divide)
  have "x = of_int m * (ulp64 x * 2 ^ d)" unfolding u by (simp add: x_def)
  then have "x / ulp64 x = of_int m * 2 ^ d" using ulp64_pos [of x] by (simp add: field_simps)
  then have q: "x / ulp64 x = of_int (m * 2 ^ d)" by simp
  have "\<bar>x\<bar> \<le> of_int \<bar>m\<bar>" unfolding ax by (simp add: divide_le_eq mult_le_cancel_left1)
  then have "\<bar>x\<bar> < 2 ^ 53" using m by linarith
  moreover have "(2 ^ 53 :: real) < 2 ^ 1024" by (intro power_strict_increasing) simp_all
  ultimately have "\<bar>x\<bar> < 2 ^ 1024" by linarith
  with q show ?thesis unfolding x_def [symmetric] by (rule round64_fixed)
qed

lemma round64_one: "round64 1 = Num 1"
  using round64_power2 [of 0] by simp

lemma round64_half: "round64 (1 / 2) = Num (1 / 2)"
  using round64_inverse_power2 [of 1] by simp

lemma round64_five_eighths: "round64 (5 / 8) = Num (5 / 8)"
  using round64_grid [of 5 3] by simp

lemma round64_grid_le:
  assumes "0 \<le> m" "m \<le> 2 ^ 53"
  shows "round64 (of_int m / 2 ^ 54) = Num (of_int m / 2 ^ 54)"
proof (cases "m = 2 ^ 53")
  case True
  then show ?thesis using round64_half by simp
next
  case False
  then have "\<bar>m\<bar> < 2 ^ 53" using assms by simp
  then show ?thesis by (rule round64_grid) simp
qed

lemma round64_idem_unit:
  assumes "0 \<le> x" "x \<le> 1" "round64 x = Num y"
  shows "round64 y = Num y"
proof -
  consider "x = 0" | "x = 1" | "0 < x" "x < 1" using assms by linarith
  then show ?thesis
  proof cases
    case 1
    then have "y = 0" using assms(3) by (simp add: round64_def)
    then show ?thesis by (simp add: round64_def)
  next
    case 2
    then have "y = 1" using assms(3) round64_one by simp
    then show ?thesis using round64_one by simp
  next
    case 3
    define j where "j = nat (52 - expo64 x)"
    have "log 2 x < 0" using 3 by simp
    then have "\<lfloor>log 2 \<bar>x\<bar>\<rfloor> \<le> - 1" using 3 by (simp add: floor_le_iff)
    then have e: "expo64 x \<le> - 1" "- 1022 \<le> expo64 x" by (simp_all add: expo64_def)
    then have j: "53 \<le> j" "j \<le> 1074" "int j = 52 - expo64 x" by (simp_all add: j_def)
    have "ulp64 x = 2 powr (of_int (- int j))" unfolding j(3) by (simp add: ulp64_def)
    also have "\<dots> = inverse (2 ^ j)" by (subst powr_real_of_int) simp_all
    finally have u: "ulp64 x = 1 / 2 ^ j" by (simp add: inverse_eq_divide)
    define n where "n = rne (x * 2 ^ j)"
    have ny: "nearest64 x = of_int n / 2 ^ j" by (simp add: nearest64_def u n_def)
    have "y = nearest64 x" using assms(3) 3 by (simp add: round64_def Let_def split: if_splits)
    then have y: "y = of_int n / 2 ^ j" using ny by simp
    have n0: "0 \<le> n" unfolding n_def using 3 by (intro rne_nonneg) simp
    have "x < 2 powr (of_int (expo64 x) + 1)" using 3(1) by (rule below_next_binade)
    then have "x * 2 powr (real j) < 2 powr (of_int (expo64 x) + 1) * 2 powr (real j)"
      by (intro mult_strict_right_mono) simp_all
    also have "\<dots> = 2 powr (of_int (expo64 x) + 1 + real j)" by (simp add: powr_add)
    also have "of_int (expo64 x) + 1 + real j = real 53" using j(3) by simp
    finally have "x * 2 ^ j < 2 ^ 53" by (simp only: powr_realpow zero_less_numeral)
    then have "x * 2 ^ j \<le> of_int (2 ^ 53)" by simp
    then have n53: "n \<le> 2 ^ 53" unfolding n_def by (rule rne_le_int)
    show ?thesis
    proof (cases "n = 2 ^ 53")
      case True
      have "(2 :: real) ^ j = 2 ^ (j - 53) * 2 ^ 53" using j(1) by (rule power2_split)
      then have "y = 1 / 2 ^ (j - 53)" unfolding y True by simp
      moreover have "j - 53 \<le> 1074" using j(2) by simp
      ultimately show ?thesis using round64_tiny_power2 by simp
    next
      case False
      then have "\<bar>n\<bar> < 2 ^ 53" using n0 n53 by simp
      then show ?thesis unfolding y using j(2) by (rule round64_grid)
    qed
  qed
qed

subsection \<open>From one quarter to two\<close>

text \<open>
  The binary64 numbers from \<open>1 / 4\<close> to \<open>1 / 2\<close> are the multiples of \<open>2 ^ - 54\<close>, those
  from \<open>1 / 2\<close> to 1 the multiples of \<open>2 ^ - 53\<close>, those from 1 to 2 the multiples of
  \<open>2 ^ - 52\<close>, and rounding moves a number by at most half of that spacing. For a binary64
  number \<open>p\<close> from \<open>1 / 2\<close> to 1 the difference \<open>1 - p\<close> is a binary64 number. The midpoint
  \<open>1 + 2 ^ - 53\<close> of 1 and the next binary64 number is rounded to 1, the even one of the
  two.
\<close>

lemma round64_scaled_error:
  assumes "2 ^ 52 \<le> x * 2 ^ j" "x * 2 ^ j < 2 ^ 53" "j \<le> 1074"
  shows "\<exists>N. round64 x = Num (of_int N / 2 ^ j) \<and> \<bar>of_int N - x * 2 ^ j\<bar> \<le> 1 / 2
           \<and> 2 ^ 52 \<le> N \<and> N \<le> 2 ^ 53"
proof -
  define N where "N = rne (x * 2 ^ j)"
  have "round64 x = Num (of_int N / 2 ^ j)" unfolding N_def using assms by (rule round64_scaled)
  moreover have "\<bar>of_int N - x * 2 ^ j\<bar> \<le> 1 / 2" unfolding N_def by (rule rne_error)
  moreover have "2 ^ 52 \<le> N" unfolding N_def using assms(1) by (intro rne_ge_int) simp
  moreover have "N \<le> 2 ^ 53" unfolding N_def using assms(2) by (intro rne_le_int) simp
  ultimately show ?thesis by blast
qed

lemma round64_quarter_binade:
  assumes "1 / 4 \<le> x" "x < 1 / 2"
  shows "\<exists>N. round64 x = Num (of_int N / 2 ^ 54) \<and> \<bar>of_int N - x * 2 ^ 54\<bar> \<le> 1 / 2
           \<and> 2 ^ 52 \<le> N \<and> N \<le> 2 ^ 53"
  using assms by (intro round64_scaled_error) simp_all

lemma round64_half_binade:
  assumes "1 / 2 \<le> x" "x < 1"
  shows "\<exists>N. round64 x = Num (of_int N / 2 ^ 53) \<and> \<bar>of_int N - x * 2 ^ 53\<bar> \<le> 1 / 2
           \<and> 2 ^ 52 \<le> N \<and> N \<le> 2 ^ 53"
  using assms by (intro round64_scaled_error) simp_all

lemma round64_one_binade:
  assumes "1 \<le> x" "x < 2"
  shows "\<exists>N. round64 x = Num (of_int N / 2 ^ 52) \<and> \<bar>of_int N - x * 2 ^ 52\<bar> \<le> 1 / 2
           \<and> 2 ^ 52 \<le> N \<and> N \<le> 2 ^ 53"
  using assms by (intro round64_scaled_error) simp_all

lemma quarter_binade:
  assumes "1 / 4 \<le> x" "x < 1 / 2" "round64 x = Num v"
  shows "\<exists>N. v = of_int N / 2 ^ 54 \<and> \<bar>of_int N - x * 2 ^ 54\<bar> \<le> 1 / 2
           \<and> 2 ^ 52 \<le> N \<and> N \<le> 2 ^ 53"
  using round64_quarter_binade [OF assms(1,2)] assms(3) by auto

lemma half_binade:
  assumes "1 / 2 \<le> x" "x < 1" "round64 x = Num v"
  shows "\<exists>N. v = of_int N / 2 ^ 53 \<and> \<bar>of_int N - x * 2 ^ 53\<bar> \<le> 1 / 2
           \<and> 2 ^ 52 \<le> N \<and> N \<le> 2 ^ 53"
  using round64_half_binade [OF assms(1,2)] assms(3) by auto

lemma one_binade:
  assumes "1 \<le> x" "x < 2" "round64 x = Num v"
  shows "\<exists>N. v = of_int N / 2 ^ 52 \<and> \<bar>of_int N - x * 2 ^ 52\<bar> \<le> 1 / 2
           \<and> 2 ^ 52 \<le> N \<and> N \<le> 2 ^ 53"
  using round64_one_binade [OF assms(1,2)] assms(3) by auto

lemma quarter_binade_upper:
  assumes "1 / 4 \<le> x" "x < 1 / 2" "round64 x = Num v"
  shows "\<exists>A. v = of_int A / 2 ^ 54 \<and> v \<le> x + 1 / 2 ^ 55"
proof -
  from quarter_binade [OF assms] obtain N where
    N: "v = of_int N / 2 ^ 54" "\<bar>of_int N - x * 2 ^ 54\<bar> \<le> 1 / 2" by blast
  have "of_int N \<le> x * 2 ^ 54 + 1 / 2" using N(2) by linarith
  then have "of_int N / 2 ^ 54 \<le> (x * 2 ^ 54 + 1 / 2) / 2 ^ 54"
    by (simp only: divide_right_mono zero_le_power zero_le_numeral)
  also have "\<dots> = x + 1 / 2 ^ 55" by (simp add: field_simps)
  finally show ?thesis using N(1) by blast
qed

lemma half_binade_upper:
  assumes "1 / 2 \<le> x" "x < 1" "round64 x = Num v"
  shows "\<exists>A. v = of_int A / 2 ^ 54 \<and> v \<le> x + 1 / 2 ^ 54 \<and> 1 / 2 \<le> v \<and> v \<le> 1"
proof -
  from half_binade [OF assms] obtain N where
    N: "v = of_int N / 2 ^ 53" "\<bar>of_int N - x * 2 ^ 53\<bar> \<le> 1 / 2" "2 ^ 52 \<le> N" "N \<le> 2 ^ 53"
    by blast
  have "of_int N \<le> x * 2 ^ 53 + 1 / 2" using N(2) by linarith
  then have "of_int N / 2 ^ 53 \<le> (x * 2 ^ 53 + 1 / 2) / 2 ^ 53"
    by (simp only: divide_right_mono zero_le_power zero_le_numeral)
  also have "\<dots> = x + 1 / 2 ^ 54" by (simp add: field_simps)
  finally have u: "v \<le> x + 1 / 2 ^ 54" using N(1) by simp
  have g: "v = of_int (2 * N) / 2 ^ 54" by (simp add: N(1))
  have "(of_int (2 ^ 52) :: real) \<le> of_int N" using N(3) by (simp only: of_int_le_iff)
  then have lo: "1 / 2 \<le> v" by (simp add: N(1) field_simps)
  have "(of_int N :: real) \<le> of_int (2 ^ 53)" using N(4) by (simp only: of_int_le_iff)
  then have hi: "v \<le> 1" by (simp add: N(1) field_simps)
  from g u lo hi show ?thesis by blast
qed

lemma one_binade_upper:
  assumes "1 \<le> x" "x < 2" "round64 x = Num v"
  shows "v \<le> x + 1 / 2 ^ 53 \<and> 1 \<le> v \<and> v \<le> 2"
proof -
  from one_binade [OF assms] obtain N where
    N: "v = of_int N / 2 ^ 52" "\<bar>of_int N - x * 2 ^ 52\<bar> \<le> 1 / 2" "2 ^ 52 \<le> N" "N \<le> 2 ^ 53"
    by blast
  have "of_int N \<le> x * 2 ^ 52 + 1 / 2" using N(2) by linarith
  then have "of_int N / 2 ^ 52 \<le> (x * 2 ^ 52 + 1 / 2) / 2 ^ 52"
    by (simp only: divide_right_mono zero_le_power zero_le_numeral)
  also have "\<dots> = x + 1 / 2 ^ 53" by (simp add: field_simps)
  finally have u: "v \<le> x + 1 / 2 ^ 53" using N(1) by simp
  have "(of_int (2 ^ 52) :: real) \<le> of_int N" using N(3) by (simp only: of_int_le_iff)
  then have lo: "1 \<le> v" by (simp add: N(1) field_simps)
  have "(of_int N :: real) \<le> of_int (2 ^ 53)" using N(4) by (simp only: of_int_le_iff)
  then have hi: "v \<le> 2" by (simp add: N(1) field_simps)
  from u lo hi show ?thesis by blast
qed

lemma unit_binades_upper:
  assumes "1 / 4 \<le> x" "x < 1" "round64 x = Num v"
  shows "\<exists>A. v = of_int A / 2 ^ 54 \<and> v \<le> x + 1 / 2 ^ 54"
proof (cases "x < 1 / 2")
  case True
  from quarter_binade_upper [OF assms(1) True assms(3)] obtain A where
    "v = of_int A / 2 ^ 54" "v \<le> x + 1 / 2 ^ 55" by blast
  moreover have "(1 / 2 ^ 55 :: real) \<le> 1 / 2 ^ 54" by simp
  ultimately have "v = of_int A / 2 ^ 54 \<and> v \<le> x + 1 / 2 ^ 54" by linarith
  then show ?thesis ..
next
  case False
  then have "1 / 2 \<le> x" by simp
  from half_binade_upper [OF this assms(2,3)] show ?thesis by blast
qed

lemma grid_sum_le:
  fixes a b :: real
  assumes "a = of_int A / 2 ^ 54" "b = of_int B / 2 ^ 54" "a + b < 1 + 3 / 2 ^ 54"
  shows "a + b \<le> 1 + 1 / 2 ^ 53"
proof -
  have s: "a + b = of_int (A + B) / 2 ^ 54" by (simp add: assms(1,2) add_divide_distrib)
  have "of_int (A + B) / 2 ^ 54 < (1 + 3 / 2 ^ 54 :: real)" using assms(3) unfolding s .
  then have "(of_int (A + B) :: real) < of_int (2 ^ 54 + 3)" by (simp add: field_simps)
  then have "A + B < 2 ^ 54 + 3" by (simp only: of_int_less_iff)
  then have "A + B \<le> 2 ^ 54 + 2" by simp
  then have "(of_int (A + B) :: real) \<le> of_int (2 ^ 54 + 2)" by (simp only: of_int_le_iff)
  then have "of_int (A + B) / 2 ^ 54 \<le> (of_int (2 ^ 54 + 2) / 2 ^ 54 :: real)"
    by (simp only: divide_right_mono zero_le_power zero_le_numeral)
  also have "\<dots> = 1 + 1 / 2 ^ 53" by simp
  finally show ?thesis unfolding s .
qed

lemma b64_complement_exact:
  assumes "round64 p = Num p" "1 / 2 \<le> p" "p < 1"
  shows "round64 (1 - p) = Num (1 - p)"
proof -
  from round64_half_binade [OF assms(2,3)] assms(1) obtain N where
    N: "p = of_int N / 2 ^ 53" "2 ^ 52 \<le> N" "N \<le> 2 ^ 53" by auto
  have eq: "1 - p = of_int (2 ^ 53 - N) / 2 ^ 53" unfolding N(1) by (simp add: field_simps)
  have "\<bar>2 ^ 53 - N\<bar> < 2 ^ 53" using N(2,3) by simp
  then show ?thesis unfolding eq by (rule round64_grid) simp
qed

lemma round64_one_tie: "round64 (1 + 1 / 2 ^ 53) = Num 1"
proof -
  have x: "(1 + 1 / 2 ^ 53) * 2 ^ 52 = of_int (2 ^ 52) + (1 / 2 :: real)" by simp
  have "round64 (1 + 1 / 2 ^ 53) = Num (of_int (rne ((1 + 1 / 2 ^ 53) * 2 ^ 52)) / 2 ^ 52)"
    by (rule round64_scaled) simp_all
  also have "rne ((1 + 1 / 2 ^ 53) * 2 ^ 52) = 2 ^ 52"
    unfolding x by (rule rne_tie_even) simp
  finally show ?thesis by simp
qed

lemma round64_le_one:
  assumes "0 \<le> x" "x \<le> 1 + 1 / 2 ^ 53"
  shows "\<exists>v. round64 x = Num v \<and> v \<le> 1"
  using round64_mono [OF assms round64_one_tie] .

lemma round64_below_midpoint:
  assumes "2 ^ 52 \<le> n" "n < 2 ^ 53" "0 \<le> x" "x < of_int n / 2 ^ 53 + 1 / 2 ^ 54"
  shows "\<exists>v. round64 x = Num v \<and> v \<le> of_int n / 2 ^ 53"
proof (cases "x \<le> of_int n / 2 ^ 53")
  case True
  have "\<bar>n\<bar> < 2 ^ 53" using assms(1,2) by simp
  then have "round64 (of_int n / 2 ^ 53) = Num (of_int n / 2 ^ 53)"
    by (rule round64_grid) simp
  from round64_mono [OF assms(3) True this] show ?thesis .
next
  case False
  then have lo: "of_int n < x * 2 ^ 53" by (simp add: field_simps)
  have hi: "x * 2 ^ 53 < of_int n + 1 / 2" using assms(4) by (simp add: field_simps)
  have "(of_int (2 ^ 52) :: real) \<le> of_int n" using assms(1) by (simp only: of_int_le_iff)
  then have a: "2 ^ 52 \<le> x * 2 ^ 53" using lo by simp
  have "(of_int n :: real) \<le> of_int (2 ^ 53 - 1)" using assms(2) by (simp only: of_int_le_iff)
  then have b: "x * 2 ^ 53 < 2 ^ 53" using hi by simp
  have "round64 x = Num (of_int (rne (x * 2 ^ 53)) / 2 ^ 53)"
    using a b by (rule round64_scaled) simp
  moreover have "rne (x * 2 ^ 53) \<le> n" using hi by (rule rne_lt_half)
  then have "(of_int (rne (x * 2 ^ 53)) :: real) \<le> of_int n" by (simp only: of_int_le_iff)
  then have "of_int (rne (x * 2 ^ 53)) / 2 ^ 53 \<le> (of_int n / 2 ^ 53 :: real)"
    by (simp add: divide_right_mono)
  ultimately show ?thesis by blast
qed

subsection \<open>The relative error\<close>

text \<open>
  Rounding a nonnegative number raises it by at most the fraction \<open>2 ^ - 53\<close> of itself,
  or by half of the least subnormal spacing.
\<close>

lemma nearest64_upper:
  assumes "0 < x"
  shows "nearest64 x \<le> x + x / 2 ^ 53 + 1 / 2 ^ 100"
proof -
  have u: "0 < ulp64 x" by (rule ulp64_pos)
  have "of_int (rne (x / ulp64 x)) \<le> x / ulp64 x + 1 / 2"
    using rne_error [of "x / ulp64 x"] by linarith
  then have "ulp64 x * of_int (rne (x / ulp64 x)) \<le> ulp64 x * (x / ulp64 x + 1 / 2)"
    using u by (simp only: mult_le_cancel_left_pos)
  also have "\<dots> = x + ulp64 x / 2" using u by (simp add: field_simps)
  finally have a: "nearest64 x \<le> x + ulp64 x / 2" by (simp add: nearest64_def)
  have h: "ulp64 x / 2 = 2 powr (of_int (expo64 x) - 53)"
    by (simp add: ulp64_def powr_diff)
  have "ulp64 x / 2 \<le> x / 2 ^ 53 + 1 / 2 ^ 100"
  proof (cases "- 1022 \<le> \<lfloor>log 2 x\<rfloor>")
    case True
    then have e: "expo64 x = \<lfloor>log 2 x\<rfloor>" using assms by (simp add: expo64_def)
    have "of_int (expo64 x) \<le> log 2 x" unfolding e by simp
    then have "2 powr (of_int (expo64 x)) \<le> 2 powr (log 2 x)" by simp
    then have b: "2 powr (of_int (expo64 x)) \<le> x" using assms by simp
    have "ulp64 x / 2 = 2 powr (of_int (expo64 x)) / 2 powr 53"
      unfolding h by (simp add: powr_diff)
    also have "(2::real) powr 53 = 2 ^ 53" using powr_realpow [of 2 53] by simp
    finally have "ulp64 x / 2 = 2 powr (of_int (expo64 x)) / 2 ^ 53" .
    also have "\<dots> \<le> x / 2 ^ 53" using b by (simp add: divide_right_mono)
    finally show ?thesis by simp
  next
    case False
    then have e: "expo64 x = - 1022" using assms by (simp add: expo64_def)
    have "ulp64 x / 2 = 2 powr (of_int (- 1075))" unfolding h e by simp
    also have "\<dots> \<le> 2 powr (of_int (- 100))" by (simp only: powr_le_cancel_iff)
    also have "\<dots> = inverse (2 ^ 100)" by (subst powr_real_of_int) simp_all
    finally have "ulp64 x / 2 \<le> 1 / 2 ^ 100" by (simp add: inverse_eq_divide)
    moreover have "0 \<le> x / 2 ^ 53" using assms by simp
    ultimately show ?thesis by linarith
  qed
  with a show ?thesis by linarith
qed

lemma round64_upper:
  assumes "0 \<le> x" "round64 x = Num v"
  shows "v \<le> x + x / 2 ^ 53 + 1 / 2 ^ 100"
proof (cases "x = 0")
  case True
  then show ?thesis using assms by (simp add: round64_def)
next
  case False
  then have x: "0 < x" using assms by simp
  have "v = nearest64 x" using assms(2) x by (simp add: round64_def Let_def split: if_splits)
  then show ?thesis using nearest64_upper [OF x] by simp
qed

lemma two_step_upper:
  assumes "0 \<le> l" "0 \<le> p" "p \<le> 1" "p * l \<le> 1"
    and "round64 l = Num m" "round64 (p * m) = Num a"
  shows "a \<le> p * l + 1 / 2 ^ 50"
proof -
  define t :: real where "t = 1 / 2 ^ 100"
  define u :: real where "u = 1 / 2 ^ 53"
  have tu: "0 < t" "0 < u" "t \<le> u" "u \<le> 1 / 2 ^ 53" "8 * u \<le> 1 / 2 ^ 50" "u \<le> 1"
    by (simp_all add: t_def u_def)
  have m: "m \<le> l + l * u + t" using round64_upper [OF assms(1,5)] by (simp add: t_def u_def)
  have m0: "0 \<le> m" using round64_nonneg [OF assms(1)] assms(5) by simp
  have "p * m \<le> p * (l + l * u + t)" using m assms(2) by (rule mult_left_mono)
  also have "\<dots> = p * l + (p * l) * u + p * t" by (simp add: algebra_simps)
  also have "\<dots> \<le> p * l + 1 * u + 1 * t"
    using assms tu by (intro add_mono mult_right_mono) simp_all
  finally have pm: "p * m \<le> p * l + u + t" by simp
  have pm0: "0 \<le> p * m" using assms(2) m0 by simp
  have a: "a \<le> p * m + (p * m) * u + t"
    using round64_upper [OF pm0 assms(6)] by (simp add: t_def u_def)
  have "p * m \<le> 3" using pm assms(4) tu by linarith
  then have "(p * m) * u \<le> 3 * u" using tu by (intro mult_right_mono) simp_all
  with a pm tu show ?thesis by linarith
qed


section \<open>Range and monotonicity of the occupancy\<close>

subsection \<open>The occupancy, rounded\<close>

lemma product_b64_nonneg:
  assumes "0 \<le> flux self" "0 < pixel_area self" "0 < frame_duration self"
  shows "calculate_flux_area_frame_duration_product_b64 self = PosInf
         \<or> (\<exists>y. calculate_flux_area_frame_duration_product_b64 self = Num y \<and> 0 \<le> y)"
proof -
  have "0 \<le> flux self * pixel_area self" using assms by simp
  from round64_nonneg [OF this]
  consider "round64 (flux self * pixel_area self) = PosInf"
    | y where "round64 (flux self * pixel_area self) = Num y" "0 \<le> y" by blast
  then show ?thesis
  proof cases
    case 1
    then show ?thesis using assms
      by (simp add: calculate_flux_area_frame_duration_product_b64_def mul64_def)
  next
    case 2
    then have "0 \<le> y * frame_duration self" using assms by simp
    from round64_nonneg [OF this] 2 show ?thesis
      by (simp add: calculate_flux_area_frame_duration_product_b64_def mul64_def)
  qed
qed

lemma exp_b64_unit:
  assumes "0 \<le> flux self" "0 < pixel_area self" "0 < frame_duration self"
  shows "\<exists>z. np_exp64 (neg64 (calculate_flux_area_frame_duration_product_b64 self)) = Num z
          \<and> 0 \<le> z \<and> z \<le> 1"
  using product_b64_nonneg [OF assms]
proof
  assume "calculate_flux_area_frame_duration_product_b64 self = PosInf"
  then show ?thesis by (simp add: neg64_def np_exp64_def)
next
  assume "\<exists>y. calculate_flux_area_frame_duration_product_b64 self = Num y \<and> 0 \<le> y"
  then obtain y where y: "calculate_flux_area_frame_duration_product_b64 self = Num y" "0 \<le> y"
    by blast
  have "0 \<le> exp (- y)" "exp (- y) \<le> 1" using y by simp_all
  from round64_unit [OF this] y show ?thesis by (simp add: neg64_def np_exp64_def)
qed

lemma occupancy_b64_unit:
  assumes "0 \<le> flux self" "0 < pixel_area self" "0 < frame_duration self"
  shows "\<exists>y. calculate_pixel_occupancy_b64 self = Num y \<and> 0 \<le> y \<and> y \<le> 1"
proof -
  from exp_b64_unit [OF assms] obtain z where
    z: "np_exp64 (neg64 (calculate_flux_area_frame_duration_product_b64 self)) = Num z"
      "0 \<le> z" "z \<le> 1" by blast
  have "0 \<le> 1 - z" "1 - z \<le> 1" using z by simp_all
  from round64_unit [OF this] z show ?thesis
    by (simp add: calculate_pixel_occupancy_b64_def sub64_def)
qed

lemma product_b64_mono:
  assumes a: "0 \<le> flux a" "0 < pixel_area a" "0 < frame_duration a"
    and b: "0 \<le> flux b" "0 < pixel_area b" "0 < frame_duration b"
    and le: "flux a * pixel_area a \<le> flux b * pixel_area b" "frame_duration a \<le> frame_duration b"
    and fin: "calculate_flux_area_frame_duration_product_b64 b = Num v"
  shows "\<exists>u. calculate_flux_area_frame_duration_product_b64 a = Num u \<and> 0 \<le> u \<and> u \<le> v"
proof -
  have nb: "0 \<le> flux b * pixel_area b" using b by simp
  have na: "0 \<le> flux a * pixel_area a" using a by simp
  from round64_nonneg [OF nb]
  obtain w where w: "round64 (flux b * pixel_area b) = Num w" "0 \<le> w"
    using fin b by (auto simp: calculate_flux_area_frame_duration_product_b64_def mul64_def)
  from round64_mono [OF na le(1) w(1)]
  obtain w' where w': "round64 (flux a * pixel_area a) = Num w'" "w' \<le> w" by blast
  have w'0: "0 \<le> w'" using round64_nonneg [OF na] w'(1) by simp
  have v: "round64 (w * frame_duration b) = Num v"
    using fin w by (simp add: calculate_flux_area_frame_duration_product_b64_def mul64_def)
  have "w' * frame_duration a \<le> w * frame_duration b"
    using w' w'0 le(2) a b by (intro mult_mono) simp_all
  moreover have n: "0 \<le> w' * frame_duration a" using w'0 a by simp
  ultimately obtain u where u: "round64 (w' * frame_duration a) = Num u" "u \<le> v"
    using round64_mono [OF _ _ v] by blast
  have "0 \<le> u" using round64_nonneg [OF n] u(1) by simp
  with u w' show ?thesis
    by (simp add: calculate_flux_area_frame_duration_product_b64_def mul64_def)
qed

lemma exp_b64_antimono:
  assumes a: "0 \<le> flux a" "0 < pixel_area a" "0 < frame_duration a"
    and b: "0 \<le> flux b" "0 < pixel_area b" "0 < frame_duration b"
    and le: "flux a * pixel_area a \<le> flux b * pixel_area b" "frame_duration a \<le> frame_duration b"
  shows "\<exists>za zb. np_exp64 (neg64 (calculate_flux_area_frame_duration_product_b64 a)) = Num za
           \<and> np_exp64 (neg64 (calculate_flux_area_frame_duration_product_b64 b)) = Num zb
           \<and> 0 \<le> zb \<and> zb \<le> za \<and> za \<le> 1"
proof -
  from exp_b64_unit [OF a] obtain za where
    za: "np_exp64 (neg64 (calculate_flux_area_frame_duration_product_b64 a)) = Num za"
      "0 \<le> za" "za \<le> 1" by blast
  from exp_b64_unit [OF b] obtain zb where
    zb: "np_exp64 (neg64 (calculate_flux_area_frame_duration_product_b64 b)) = Num zb"
      "0 \<le> zb" "zb \<le> 1" by blast
  have "zb \<le> za"
    using product_b64_nonneg [OF b]
  proof
    assume "calculate_flux_area_frame_duration_product_b64 b = PosInf"
    then have "zb = 0" using zb(1) by (simp add: neg64_def np_exp64_def)
    then show ?thesis using za by simp
  next
    assume "\<exists>y. calculate_flux_area_frame_duration_product_b64 b = Num y \<and> 0 \<le> y"
    then obtain v where v: "calculate_flux_area_frame_duration_product_b64 b = Num v" by blast
    from product_b64_mono [OF a b le v] obtain u where
      u: "calculate_flux_area_frame_duration_product_b64 a = Num u" "u \<le> v" by blast
    have ra: "round64 (exp (- u)) = Num za" using za(1) u by (simp add: neg64_def np_exp64_def)
    have rb: "round64 (exp (- v)) = Num zb" using zb(1) v by (simp add: neg64_def np_exp64_def)
    have "0 \<le> exp (- v)" "exp (- v) \<le> exp (- u)" using u by simp_all
    from round64_mono [OF this ra] rb show ?thesis by simp
  qed
  with za zb show ?thesis by blast
qed

lemma occupancy_b64_mono:
  assumes a: "0 \<le> flux a" "0 < pixel_area a" "0 < frame_duration a"
    and b: "0 \<le> flux b" "0 < pixel_area b" "0 < frame_duration b"
    and le: "flux a * pixel_area a \<le> flux b * pixel_area b" "frame_duration a \<le> frame_duration b"
  shows "\<exists>x y. calculate_pixel_occupancy_b64 a = Num x \<and> calculate_pixel_occupancy_b64 b = Num y
           \<and> x \<le> y"
proof -
  from exp_b64_antimono [OF a b le] obtain za zb where
    z: "np_exp64 (neg64 (calculate_flux_area_frame_duration_product_b64 a)) = Num za"
      "np_exp64 (neg64 (calculate_flux_area_frame_duration_product_b64 b)) = Num zb"
      "0 \<le> zb" "zb \<le> za" "za \<le> 1" by blast
  have "0 \<le> 1 - zb" "1 - zb \<le> 1" using z by simp_all
  from round64_unit [OF this] obtain y where y: "round64 (1 - zb) = Num y" by blast
  have "0 \<le> 1 - za" "1 - za \<le> 1 - zb" using z by simp_all
  from round64_mono [OF this y] obtain x where x: "round64 (1 - za) = Num x" "x \<le> y" by blast
  from x y z show ?thesis by (simp add: calculate_pixel_occupancy_b64_def sub64_def)
qed

lemma exp_b64_small:
  assumes "54 \<le> y"
  shows "\<exists>z. round64 (exp (- y)) = Num z \<and> 0 \<le> z \<and> z \<le> 1 / 2 ^ 54"
proof -
  have "(2::real) \<le> exp 1" using exp_ge_add_one_self [of "1::real"] by simp
  then have "(2::real) ^ 54 \<le> exp 1 ^ 54" by (intro power_mono) simp_all
  also have "\<dots> = exp (54 :: real)"
    using exp_of_nat_mult [of 54 "1::real"] by simp
  also have "\<dots> \<le> exp y" using assms by simp
  finally have "(2::real) ^ 54 \<le> exp y" .
  then have "inverse (exp y) \<le> inverse (2 ^ 54)"
    by (intro le_imp_inverse_le) simp_all
  then have le: "exp (- y) \<le> 1 / 2 ^ 54" by (simp add: exp_minus inverse_eq_divide)
  have "0 \<le> exp (- y)" by simp
  from round64_mono [OF this le round64_inverse_power2 [of 54]]
  obtain z where z: "round64 (exp (- y)) = Num z" "z \<le> 1 / 2 ^ 54" by auto
  moreover have "0 \<le> z" using round64_nonneg [of "exp (- y)"] z(1) by simp
  ultimately show ?thesis by blast
qed

lemma occupancy_b64_saturated:
  assumes "calculate_flux_area_frame_duration_product_b64 self = Num y" "54 \<le> y"
  shows "calculate_pixel_occupancy_b64 self = Num 1"
proof -
  from exp_b64_small [OF assms(2)] obtain z where
    z: "round64 (exp (- y)) = Num z" "0 \<le> z" "z \<le> 1 / 2 ^ 54" by blast
  from round64_near_one [OF z(2,3)] z(1) assms(1) show ?thesis
    by (simp add: calculate_pixel_occupancy_b64_def sub64_def np_exp64_def neg64_def)
qed

subsection \<open>The range\<close>

text \<open>
  C4, as amended. For flux at least 0 and pixel area and frame duration above 0, the
  occupancy lies in the closed interval from 0 to 1. In exact arithmetic it stays below 1;
  evaluated in binary64, as the code evaluates it, it is a number from 0 to 1, both ends
  included.
\<close>

theorem occupancy_range:
  assumes "0 \<le> flux self" "0 < pixel_area self" "0 < frame_duration self"
  shows "0 \<le> calculate_pixel_occupancy self \<and> calculate_pixel_occupancy self < 1
         \<and> (\<exists>y. calculate_pixel_occupancy_b64 self = Num y \<and> 0 \<le> y \<and> y \<le> 1)"
proof -
  have "0 \<le> flux self * pixel_area self * frame_duration self" using assms by simp
  then have "0 \<le> calculate_pixel_occupancy self"
    by (simp add: calculate_pixel_occupancy_def calculate_flux_area_frame_duration_product_def)
  moreover have "calculate_pixel_occupancy self < 1"
    by (simp add: calculate_pixel_occupancy_def)
  ultimately show ?thesis using occupancy_b64_unit [OF assms] by simp
qed

theorem occupancy_range_witness:
  "0 \<le> flux base_parameters \<and> 0 < pixel_area base_parameters
   \<and> 0 < frame_duration base_parameters
   \<and> 0 \<le> calculate_pixel_occupancy base_parameters
   \<and> calculate_pixel_occupancy base_parameters < 1
   \<and> (\<exists>y. calculate_pixel_occupancy_b64 base_parameters = Num y \<and> 0 \<le> y \<and> y \<le> 1)"
  using occupancy_range [of base_parameters] by (simp add: base_parameters_def)

text \<open>
  The upper end is reached. With flux \<open>2 ^ 26\<close>, pixel area \<open>2 ^ - 20\<close> and frame duration 1
  (three binary64 numbers) both products are exact and the mean number of hits per frame
  is 64; \<open>exp (- 64)\<close> is below \<open>2 ^ - 54\<close>, half the spacing of the binary64 numbers just
  below 1, so the subtraction rounds to 1 (a tie goes to 1, whose significand is even).
  The same holds whenever the product is 54 or more (lemma \<open>occupancy_b64_saturated\<close>).
  This is the value that the test \<open>occupancy == 1\<close> on line 31 is there for.
\<close>

theorem occupancy_saturates:
  "(0::real) \<le> 2 ^ 26 \<and> (0::real) < 1 / 2 ^ 20 \<and> (0::real) < 1
   \<and> calculate_pixel_occupancy_b64
        \<lparr>flux = 2 ^ 26, pixel_area = 1 / 2 ^ 20, frame_duration = 1\<rparr> = Num 1"
proof -
  have "(2 ^ 26 * (1 / 2 ^ 20) :: real) = 2 ^ 6" by simp
  then have "calculate_flux_area_frame_duration_product_b64
      \<lparr>flux = 2 ^ 26, pixel_area = 1 / 2 ^ 20, frame_duration = 1\<rparr> = Num 64"
    using round64_power2 [of 6]
    by (simp add: calculate_flux_area_frame_duration_product_b64_def mul64_def)
  from occupancy_b64_saturated [OF this] show ?thesis by simp
qed

subsection \<open>Monotonicity\<close>

text \<open>
  C5. Of two parameter sets within the ranges (flux at least 0, pixel area and frame
  duration above 0) that differ in one field only, the one with the larger value of that
  field has the occupancy that is greater or equal: in exact arithmetic, and also for the
  two binary64 numbers that the code returns.
\<close>

theorem occupancy_monotone:
  assumes "0 \<le> flux a" "0 < pixel_area a" "0 < frame_duration a"
    and "0 \<le> flux b" "0 < pixel_area b" "0 < frame_duration b"
    and "(flux a \<le> flux b \<and> pixel_area a = pixel_area b \<and> frame_duration a = frame_duration b)
       \<or> (flux a = flux b \<and> pixel_area a \<le> pixel_area b \<and> frame_duration a = frame_duration b)
       \<or> (flux a = flux b \<and> pixel_area a = pixel_area b \<and> frame_duration a \<le> frame_duration b)"
  shows "calculate_pixel_occupancy a \<le> calculate_pixel_occupancy b
       \<and> (\<exists>x y. calculate_pixel_occupancy_b64 a = Num x
              \<and> calculate_pixel_occupancy_b64 b = Num y \<and> x \<le> y)"
proof -
  have p: "flux a * pixel_area a \<le> flux b * pixel_area b"
    using assms by (auto intro!: mult_right_mono mult_left_mono)
  have d: "frame_duration a \<le> frame_duration b" using assms by auto
  have "0 \<le> flux b * pixel_area b" using assms by simp
  with p d have
    "flux a * pixel_area a * frame_duration a \<le> flux b * pixel_area b * frame_duration b"
    using assms(3) by (intro mult_mono [of "flux a * pixel_area a"]) simp_all
  then have "calculate_pixel_occupancy a \<le> calculate_pixel_occupancy b"
    by (simp add: calculate_pixel_occupancy_def calculate_flux_area_frame_duration_product_def)
  with occupancy_b64_mono [OF assms(1-6) p d] show ?thesis by simp
qed

theorem occupancy_monotone_witness:
  "calculate_pixel_occupancy \<lparr>flux = 10 ^ 6, pixel_area = 1 / 10 ^ 6, frame_duration = 1 / 10 ^ 7\<rparr>
     \<le> calculate_pixel_occupancy base_parameters
   \<and> (\<exists>x y. calculate_pixel_occupancy_b64
                \<lparr>flux = 10 ^ 6, pixel_area = 1 / 10 ^ 6, frame_duration = 1 / 10 ^ 7\<rparr> = Num x
          \<and> calculate_pixel_occupancy_b64 base_parameters = Num y \<and> x \<le> y)
   \<and> calculate_pixel_occupancy base_parameters
     \<le> calculate_pixel_occupancy \<lparr>flux = 10 ^ 8, pixel_area = 4 / 10 ^ 6, frame_duration = 1 / 10 ^ 7\<rparr>
   \<and> calculate_pixel_occupancy base_parameters
     \<le> calculate_pixel_occupancy \<lparr>flux = 10 ^ 8, pixel_area = 1 / 10 ^ 6, frame_duration = 2 / 10 ^ 6\<rparr>"
  using
    occupancy_monotone [of "\<lparr>flux = 10 ^ 6, pixel_area = 1 / 10 ^ 6, frame_duration = 1 / 10 ^ 7\<rparr>"
      base_parameters]
    occupancy_monotone [of base_parameters
      "\<lparr>flux = 10 ^ 8, pixel_area = 4 / 10 ^ 6, frame_duration = 1 / 10 ^ 7\<rparr>"]
    occupancy_monotone [of base_parameters
      "\<lparr>flux = 10 ^ 8, pixel_area = 1 / 10 ^ 6, frame_duration = 2 / 10 ^ 6\<rparr>"]
  by (simp add: base_parameters_def)

section \<open>The binary entropy\<close>

subsection \<open>In exact arithmetic\<close>

lemma entropy_of_occupancy_inside:
  assumes "0 < q" "q < 1"
  shows "entropy_of_occupancy q = Num (- q * log 2 q - (1 - q) * log 2 (1 - q))"
  using assms by (simp add: entropy_of_occupancy_def np_log2_def)

lemma binary_entropy_pos:
  assumes "0 < q" "q < 1"
  shows "0 < - q * log 2 q - (1 - q) * log 2 (1 - q)"
proof -
  have "log 2 q < 0" using assms by simp
  then have a: "0 < - q * log 2 q" using assms by (simp add: mult_pos_neg)
  have "log 2 (1 - q) < 0" using assms by simp
  then have b: "0 < - ((1 - q) * log 2 (1 - q))" using assms by (simp add: mult_pos_neg)
  from a b show ?thesis by linarith
qed

lemma binary_entropy_le_1:
  assumes "0 < q" "q < 1"
  shows "- q * log 2 q - (1 - q) * log 2 (1 - q) \<le> 1"
proof -
  have a: "ln (1 / (2 * q)) \<le> 1 / (2 * q) - 1"
    using ln_le_minus_one[of "1 / (2 * q)"] assms by simp
  have b: "ln (1 / (2 * (1 - q))) \<le> 1 / (2 * (1 - q)) - 1"
    using ln_le_minus_one[of "1 / (2 * (1 - q))"] assms by simp
  have "q * ln (1 / (2 * q)) + (1 - q) * ln (1 / (2 * (1 - q)))
        \<le> q * (1 / (2 * q) - 1) + (1 - q) * (1 / (2 * (1 - q)) - 1)"
    using a b assms by (intro add_mono mult_left_mono) simp_all
  also have "\<dots> = 0" using assms by (simp add: field_simps)
  finally have c: "q * ln (1 / (2 * q)) + (1 - q) * ln (1 / (2 * (1 - q))) \<le> 0" .
  have d: "ln (1 / (2 * q)) = - ln 2 - ln q"
    using assms by (simp add: ln_div ln_mult)
  have "ln (2 * (1 - q)) = ln 2 + ln (1 - q)"
    using assms by (intro ln_mult_pos) simp_all
  moreover have "ln (1 / (2 * (1 - q))) = - ln (2 * (1 - q))"
    using assms by (subst ln_divide_pos) simp_all
  ultimately have e: "ln (1 / (2 * (1 - q))) = - ln 2 - ln (1 - q)"
    by simp
  from c have "- q * ln q - (1 - q) * ln (1 - q) \<le> ln 2"
    unfolding d e by (simp add: algebra_simps)
  then have "(- q * ln q - (1 - q) * ln (1 - q)) / ln 2 \<le> 1"
    by (simp add: field_simps)
  then show ?thesis by (simp add: log_def field_simps)
qed

lemma entropy_of_occupancy_half: "entropy_of_occupancy (1 / 2) = Num 1"
  by (simp add: entropy_of_occupancy_def np_log2_def log_divide)

lemma entropy_zero_iff: "entropy_of_occupancy q = Num 0 \<longleftrightarrow> q = 0 \<or> q = 1"
proof (cases "q = 0 \<or> q = 1")
  case True then show ?thesis by (auto simp: entropy_of_occupancy_def)
next
  case False
  show ?thesis
  proof (cases "0 < q \<and> q < 1")
    case True
    then show ?thesis using binary_entropy_pos[of q] entropy_of_occupancy_inside[of q] by auto
  next
    case F2: False
    then have "q < 0 \<or> 1 < q" using False by linarith
    then show ?thesis using False by (auto simp: entropy_of_occupancy_def np_log2_def)
  qed
qed

lemma entropy_symm: "entropy_of_occupancy (1 - q) = entropy_of_occupancy q"
  by (cases "0 < q"; cases "q < 1"; cases "q = 0"; cases "q = 1")
    (auto simp: entropy_of_occupancy_def np_log2_def algebra_simps)

subsection \<open>Bounds on the logarithm\<close>

lemma ln2_ge_2_3: "2 / 3 \<le> ln (2::real)"
proof -
  have "exp (2 / 3 :: real) = exp (of_nat 8 * (1 / 12))" by simp
  also have "\<dots> = exp (1 / 12) ^ 8" by (rule exp_of_nat_mult)
  also have "\<dots> \<le> (1 + 1 / 12 + (1 / 12)\<^sup>2) ^ 8"
    by (intro power_mono exp_bound) simp_all
  also have "\<dots> \<le> 2" by (simp add: power2_eq_square power_divide)
  finally have "exp (2 / 3 :: real) \<le> exp (ln 2)" by simp
  then show ?thesis by (simp only: exp_le_cancel_iff)
qed

lemma ln2_le_3_4: "ln (2::real) \<le> 3 / 4"
proof -
  have "(2::real) \<le> (1 + 3 / 32) ^ 8" by (simp add: power_divide)
  also have "\<dots> \<le> exp (3 / 32) ^ 8" by (intro power_mono exp_ge_add_one_self) simp
  also have "\<dots> = exp (of_nat 8 * (3 / 32))" by (rule exp_of_nat_mult [symmetric])
  finally have "exp (ln 2) \<le> exp (3 / 4 :: real)" by simp
  then show ?thesis by (simp only: exp_le_cancel_iff)
qed

lemma ln_ge_one_minus_inverse:
  assumes "0 < x"
  shows "1 - 1 / x \<le> ln (x::real)"
proof -
  have "ln (1 / x) \<le> 1 / x - 1" using assms by (intro ln_le_minus_one) simp
  moreover have "ln (1 / x) = - ln x" using assms by (simp add: ln_divide_pos)
  ultimately show ?thesis by simp
qed

lemma log2_half: "log 2 (1 / 2 :: real) = - 1"
  using log2_inverse_power [of 1] by simp

lemma log2_quarter: "log 2 (1 / 4 :: real) = - 2"
  using log2_inverse_power [of 2] by simp

lemma neg_log2_ge_1: "0 < p \<Longrightarrow> p \<le> 1 / 2 \<Longrightarrow> 1 \<le> - log 2 p"
proof -
  assume a: "0 < p" "p \<le> 1 / 2"
  then have "log 2 p \<le> log 2 (1 / 2)" by (subst log_le_cancel_iff) simp_all
  then show ?thesis by (simp only: log2_half)
qed

lemma neg_log2_gt_1: "0 < p \<Longrightarrow> p < 1 / 2 \<Longrightarrow> 1 < - log 2 p"
proof -
  assume a: "0 < p" "p < 1 / 2"
  then have "log 2 p < log 2 (1 / 2)" by (subst log_less_cancel_iff) simp_all
  then show ?thesis by (simp only: log2_half)
qed

lemma neg_log2_le_1: "1 / 2 \<le> p \<Longrightarrow> - log 2 p \<le> 1"
proof -
  assume a: "1 / 2 \<le> p"
  then have "log 2 (1 / 2) \<le> log 2 p" by (subst log_le_cancel_iff) simp_all
  then show ?thesis by (simp only: log2_half)
qed

lemma neg_log2_lt_1: "1 / 2 < p \<Longrightarrow> - log 2 p < 1"
proof -
  assume a: "1 / 2 < p"
  then have "log 2 (1 / 2) < log 2 p" by (subst log_less_cancel_iff) simp_all
  then show ?thesis by (simp only: log2_half)
qed

lemma neg_log2_lt_2: "1 / 4 < p \<Longrightarrow> - log 2 p < 2"
proof -
  assume a: "1 / 4 < p"
  then have "log 2 (1 / 4) < log 2 p" by (subst log_less_cancel_iff) simp_all
  then show ?thesis by (simp only: log2_quarter)
qed

lemma neg_log2_ge_half: "0 < p \<Longrightarrow> p \<le> 5 / 8 \<Longrightarrow> 1 / 2 \<le> - log 2 p"
proof -
  assume a: "0 < p" "p \<le> 5 / 8"
  have "p ^ 2 \<le> (5 / 8) ^ 2" using a by (intro power_mono) simp_all
  also have "\<dots> \<le> (1 / 2 :: real)" by (simp add: power2_eq_square)
  finally have "log 2 (p ^ 2) \<le> log 2 (1 / 2)" using a by (subst log_le_cancel_iff) simp_all
  moreover have "log 2 (p ^ 2) = 2 * log 2 p" using a by (simp add: log_nat_power)
  ultimately show ?thesis by (simp only: log2_half)
qed

lemma neg_log2_below_half:
  assumes "0 < p" "p < 1 / 2"
  shows "2 - 2 * p < - log 2 p"
proof -
  have l2: "0 < ln (2::real)" "ln (2::real) < 1" using ln_2_less_1 by simp_all
  have "ln (2 * p) \<le> 2 * p - 1" using assms by (intro ln_le_minus_one) simp
  moreover have "ln (2 * p) = ln 2 + ln p" using assms by (intro ln_mult_pos) simp_all
  ultimately have a: "1 - 2 * p \<le> - ln p - ln 2" by simp
  have b: "0 < 1 - 2 * p" using assms by simp
  have "(1 - 2 * p) * ln 2 < (1 - 2 * p) * 1" using b l2 by (intro mult_strict_left_mono)
  then have "(1 - 2 * p) * ln 2 < - ln p - ln 2" using a by simp
  then have "(1 - 2 * p) * ln 2 + ln 2 < - ln p" by simp
  then have "((1 - 2 * p) + 1) * ln 2 < - ln p" by (simp add: algebra_simps)
  then have "(1 - 2 * p) + 1 < (- ln p) / ln 2" using l2(1) by (simp only: pos_less_divide_eq)
  then show ?thesis by (simp add: log_def)
qed

lemma neg_log2_above_half:
  assumes "1 / 2 \<le> q" "q \<le> 2 / 3"
  shows "- log 2 q \<le> 2 - 2 * q"
proof -
  have l2: "0 < ln (2::real)" by simp
  have q: "0 < q" using assms by simp
  have "1 - 1 / (2 * q) \<le> ln (2 * q)" using q by (intro ln_ge_one_minus_inverse) simp
  moreover have "ln (2 * q) = ln 2 + ln q" using q by (intro ln_mult_pos) simp_all
  ultimately have a: "- ln q \<le> ln 2 - (1 - 1 / (2 * q))" by simp
  have "2 * q * ln 2 \<le> (4 / 3) * (3 / 4)" using assms ln2_le_3_4 l2 by (intro mult_mono) simp_all
  then have c: "2 * q * ln 2 \<le> 1" by simp
  have "(2 * q - 1) * (2 * q * ln 2) \<le> (2 * q - 1) * 1"
    using c assms by (intro mult_left_mono) simp_all
  then have "(2 * q - 1) * ln 2 * (2 * q) \<le> 2 * q - 1" by (simp add: algebra_simps)
  then have "(2 * q - 1) * ln 2 \<le> (2 * q - 1) / (2 * q)" using q by (simp add: pos_le_divide_eq)
  also have "\<dots> = 1 - 1 / (2 * q)" using q by (simp add: field_simps)
  finally have "- ln q \<le> ln 2 - (2 * q - 1) * ln 2" using a by simp
  also have "\<dots> = (2 - 2 * q) * ln 2" by (simp add: algebra_simps)
  finally have "(- ln q) / ln 2 \<le> 2 - 2 * q" using l2 by (simp only: pos_divide_le_eq)
  then show ?thesis by (simp add: log_def)
qed

lemma neg_log2_product:
  assumes "0 < p" "0 < q" "z = 1 - 4 * (p * q)" "0 \<le> z" "z \<le> 1 / 100"
  shows "- log 2 p - log 2 q \<le> 2 + 38 / 25 * z"
proof -
  have l2: "0 < ln (2::real)" by simp
  have pq: "0 < p * q" using assms by simp
  have z1: "0 < 1 - z" using assms by simp
  have f: "4 * (p * q) = 1 - z" using assms by simp
  have "1 - 1 / (1 - z) \<le> ln (1 - z)" using z1 by (rule ln_ge_one_minus_inverse)
  moreover have "ln (4 * (p * q)) = ln 4 + ln (p * q)" using pq by (intro ln_mult_pos) simp_all
  moreover have "ln (p * q) = ln p + ln q" using assms by (intro ln_mult_pos)
  moreover have "ln (4::real) = 2 * ln 2"
  proof -
    have "ln (2 * 2 :: real) = ln 2 + ln 2" by (intro ln_mult_pos) simp_all
    then show ?thesis by simp
  qed
  ultimately have a: "- ln p - ln q \<le> 2 * ln 2 + (1 / (1 - z) - 1)" unfolding f [symmetric] by simp
  have "1 / (1 - z) - 1 = z / (1 - z)" using z1 by (simp add: field_simps)
  also have "\<dots> \<le> z / (99 / 100)" using assms by (intro divide_left_mono) simp_all
  finally have b: "1 / (1 - z) - 1 \<le> 100 / 99 * z" by simp
  have "100 / 99 * z * 1 \<le> 100 / 99 * z * (3 / 2 * ln 2)"
    using assms ln2_ge_2_3 by (intro mult_left_mono) simp_all
  then have "100 / 99 * z \<le> (150 / 99 * z) * ln 2" by (simp add: algebra_simps)
  also have "\<dots> \<le> (38 / 25 * z) * ln 2" using assms l2 by (intro mult_right_mono) simp_all
  finally have "- ln p - ln q \<le> (2 + 38 / 25 * z) * ln 2" using a b by (simp add: algebra_simps)
  then have "(- ln p - ln q) / ln 2 \<le> 2 + 38 / 25 * z" using l2 by (simp add: pos_divide_le_eq)
  then show ?thesis by (simp add: log_def diff_divide_distrib)
qed

subsection \<open>Bounds on the two terms of the entropy\<close>

text \<open>
  \<open>- x * log2 x\<close> is at most \<open>2 / 3 - x / 3\<close> from one half on; the two terms add up to at
  most \<open>1 - (q - 1 / 2)\<^sup>2\<close> (from \<open>ln t \<le> 2 * (sqrt t - 1)\<close>); and a term changes by at
  most a multiple of the change of its argument.
\<close>

lemma term_upper_half:
  assumes "1 / 2 \<le> p"
  shows "- p * log 2 p \<le> 2 / 3 - p / 3"
proof -
  have p: "0 < p" using assms by simp
  have l2: "0 < ln (2::real)" by simp
  have "1 - 1 / (2 * p) \<le> ln (2 * p)" using p by (intro ln_ge_one_minus_inverse) simp
  also have "ln (2 * p) = ln 2 + ln p" using p by (intro ln_mult_pos) simp_all
  finally have a: "1 - 1 / (2 * p) - ln 2 \<le> ln p" by simp
  have "p * (1 - 1 / (2 * p) - ln 2) \<le> p * ln p" using a p by (intro mult_left_mono) simp_all
  moreover have "p * (1 - 1 / (2 * p) - ln 2) = p - 1 / 2 - p * ln 2"
    using p by (simp add: algebra_simps)
  ultimately have b: "p - 1 / 2 - p * ln 2 \<le> p * ln p" by simp
  have "- p * ln p \<le> p * ln 2 - (p - 1 / 2)" using b by simp
  then have "(- p * ln p) / ln 2 \<le> (p * ln 2 - (p - 1 / 2)) / ln 2"
    using l2 by (simp only: divide_right_mono less_imp_le)
  also have "\<dots> = p - (p - 1 / 2) / ln 2" using l2 by (simp add: field_simps)
  also have "\<dots> \<le> p - (p - 1 / 2) / (3 / 4)"
    using assms ln2_le_3_4 l2 by (intro diff_left_mono divide_left_mono) simp_all
  also have "\<dots> = 2 / 3 - p / 3" by (simp add: field_simps)
  finally show ?thesis by (simp add: log_def)
qed

lemma term_nonneg:
  assumes "0 < x" "x \<le> 1"
  shows "0 \<le> - x * log 2 x"
proof -
  have "log 2 x \<le> 0" using assms by simp
  then show ?thesis using assms by (simp add: mult_nonneg_nonpos)
qed

lemma term_le_1:
  assumes "0 < x" "x \<le> 1"
  shows "- x * log 2 x \<le> 1"
proof (cases "x = 1")
  case True then show ?thesis by simp
next
  case False
  then have x: "x < 1" using assms by simp
  have "0 \<le> - (1 - x) * log 2 (1 - x)" using assms x by (intro term_nonneg) simp_all
  with binary_entropy_le_1 [OF assms(1) x] show ?thesis by linarith
qed

lemma two_terms_upper:
  assumes "0 < p" "0 < q"
  shows "- p * log 2 p - q * log 2 q \<le> (p + q) + (1 - (p + q)) / ln 2"
proof -
  have l2: "0 < ln (2::real)" by simp
  have a: "ln (1 / (2 * p)) \<le> 1 / (2 * p) - 1"
    using ln_le_minus_one[of "1 / (2 * p)"] assms by simp
  have b: "ln (1 / (2 * q)) \<le> 1 / (2 * q) - 1"
    using ln_le_minus_one[of "1 / (2 * q)"] assms by simp
  have "p * ln (1 / (2 * p)) + q * ln (1 / (2 * q))
        \<le> p * (1 / (2 * p) - 1) + q * (1 / (2 * q) - 1)"
    using a b assms by (intro add_mono mult_left_mono) simp_all
  also have "\<dots> = 1 - (p + q)" using assms by (simp add: field_simps)
  finally have c: "p * ln (1 / (2 * p)) + q * ln (1 / (2 * q)) \<le> 1 - (p + q)" .
  have "ln (2 * p) = ln 2 + ln p" using assms by (intro ln_mult_pos) simp_all
  moreover have "ln (1 / (2 * p)) = - ln (2 * p)" using assms by (subst ln_divide_pos) simp_all
  ultimately have d: "ln (1 / (2 * p)) = - ln 2 - ln p" by simp
  have "ln (2 * q) = ln 2 + ln q" using assms by (intro ln_mult_pos) simp_all
  moreover have "ln (1 / (2 * q)) = - ln (2 * q)" using assms by (subst ln_divide_pos) simp_all
  ultimately have e: "ln (1 / (2 * q)) = - ln 2 - ln q" by simp
  from c have "- p * ln p - q * ln q \<le> (p + q) * ln 2 + (1 - (p + q))"
    unfolding d e by (simp add: algebra_simps)
  then have "(- p * ln p - q * ln q) / ln 2 \<le> ((p + q) * ln 2 + (1 - (p + q))) / ln 2"
    using l2 by (simp only: divide_right_mono less_imp_le)
  also have "\<dots> = (p + q) + (1 - (p + q)) / ln 2" using l2 by (simp add: field_simps)
  finally show ?thesis by (simp add: log_def field_simps)
qed

lemma sqrt_tangent:
  assumes "0 < p"
  shows "- p * ln p \<le> sqrt 2 * sqrt p - 2 * p + p * ln 2"
proof -
  define s :: real where "s = sqrt 2"
  define x where "x = sqrt p"
  have s: "0 < s" "s * s = 2" by (simp_all add: s_def)
  have x: "0 < x" "x * x = p" using assms by (simp_all add: x_def)
  have sx: "0 < s * x" using s x by simp
  have "ln (1 / (s * x)) \<le> 1 / (s * x) - 1" using sx by (intro ln_le_minus_one) simp
  moreover have "ln (1 / (s * x)) = - ln (s * x)" using sx by (simp add: ln_divide_pos)
  moreover have "ln (s * x) = ln s + ln x" using s x by (intro ln_mult_pos)
  moreover have "ln s = ln 2 / 2" unfolding s_def by (rule ln_sqrt) simp
  moreover have "ln x = ln p / 2" unfolding x_def using assms by (intro ln_sqrt) simp
  ultimately have a: "- ln p \<le> 2 / (s * x) - 2 + ln 2" by simp
  have "p * (- ln p) \<le> p * (2 / (s * x) - 2 + ln 2)"
    using a assms by (intro mult_left_mono) simp_all
  also have "\<dots> = p * 2 / (s * x) - 2 * p + p * ln 2" by (simp add: algebra_simps)
  also have "p * 2 / (s * x) = s * x"
  proof -
    have "(s * x) * (s * x) = (s * s) * (x * x)" by (simp only: ac_simps)
    also have "\<dots> = 2 * p" by (simp only: s(2) x(2))
    finally have e: "(s * x) * (s * x) = 2 * p" .
    have "p * 2 / (s * x) = (s * x) * (s * x) / (s * x)" by (simp only: e mult.commute)
    also have "\<dots> = s * x" using sx by (simp only: nonzero_mult_div_cancel_left)
    finally show ?thesis .
  qed
  finally show ?thesis by (simp add: s_def x_def)
qed

lemma binary_entropy_deficit:
  assumes "0 < q" "q < 1"
  shows "- q * log 2 q - (1 - q) * log 2 (1 - q) \<le> 1 - (q - 1 / 2)\<^sup>2"
proof -
  define d where "d = (q - 1 / 2)\<^sup>2"
  define r where "r = sqrt 2 * (sqrt q + sqrt (1 - q))"
  have l2: "0 < ln (2::real)" "ln (2::real) \<le> 1" using ln_2_less_1 by simp_all
  have d: "0 \<le> d" "d \<le> 1 / 4"
  proof -
    show "0 \<le> d" by (simp add: d_def)
    have "\<bar>q - 1 / 2\<bar> \<le> 1 / 2" using assms by (simp add: abs_if)
    then have "(q - 1 / 2)\<^sup>2 \<le> (1 / 2)\<^sup>2" by (simp only: abs_le_square_iff [symmetric])
    then show "d \<le> 1 / 4" by (simp add: d_def power2_eq_square)
  qed
  have pq: "q * (1 - q) = 1 / 4 - d" by (simp add: d_def power2_eq_square algebra_simps)
  have "q * (1 - q) \<le> (1 / 2 - d)\<^sup>2" unfolding pq by (simp add: power2_eq_square algebra_simps)
  then have sq: "sqrt (q * (1 - q)) \<le> 1 / 2 - d" using d by (intro real_le_lsqrt) simp_all
  have r0: "0 \<le> r" using assms by (simp add: r_def)
  have "r\<^sup>2 = 2 * (sqrt q + sqrt (1 - q))\<^sup>2" by (simp add: r_def power_mult_distrib)
  also have "(sqrt q + sqrt (1 - q))\<^sup>2 = q + (1 - q) + 2 * (sqrt q * sqrt (1 - q))"
    using assms by (simp add: power2_sum)
  also have "sqrt q * sqrt (1 - q) = sqrt (q * (1 - q))" by (simp add: real_sqrt_mult)
  finally have "r\<^sup>2 = 2 + 4 * sqrt (q * (1 - q))" by simp
  also have "\<dots> \<le> 2 + 4 * (1 / 2 - d)" using sq by simp
  also have "\<dots> \<le> (2 - d)\<^sup>2" by (simp add: power2_eq_square algebra_simps)
  finally have r2: "r\<^sup>2 \<le> (2 - d)\<^sup>2" .
  have "0 \<le> 2 - d" using d by simp
  with r2 have r: "r \<le> 2 - d" by (rule power2_le_imp_le)
  have q1: "0 < 1 - q" using assms by simp
  have "- q * ln q - (1 - q) * ln (1 - q)
        \<le> (sqrt 2 * sqrt q - 2 * q + q * ln 2)
          + (sqrt 2 * sqrt (1 - q) - 2 * (1 - q) + (1 - q) * ln 2)"
    using sqrt_tangent [OF assms(1)] sqrt_tangent [OF q1] by linarith
  also have "\<dots> = r - 2 + ln 2" by (simp add: r_def algebra_simps)
  also have "\<dots> \<le> ln 2 - d" using r by simp
  finally have "(- q * ln q - (1 - q) * ln (1 - q)) / ln 2 \<le> (ln 2 - d) / ln 2"
    using l2 by (simp only: divide_right_mono less_imp_le)
  also have "\<dots> = 1 - d / ln 2" using l2 by (simp add: field_simps)
  also have "\<dots> \<le> 1 - d / 1"
    using d l2 by (intro diff_left_mono divide_left_mono) simp_all
  finally have "(- q * ln q - (1 - q) * ln (1 - q)) / ln 2 \<le> 1 - d" by simp
  moreover have "(- q * ln q - (1 - q) * ln (1 - q)) / ln 2
      = - q * log 2 q - (1 - q) * log 2 (1 - q)"
    by (simp add: log_def diff_divide_distrib)
  ultimately show ?thesis by (simp only: d_def)
qed

lemma term_step_down:
  assumes "0 < x" "x \<le> y" "y \<le> 1"
  shows "- x * log 2 x \<le> - y * log 2 y + (y - x) * (log 2 y + 1 / ln 2)"
proof -
  have l2: "0 < ln (2::real)" by simp
  have y: "0 < y" using assms by simp
  have "ln (y / x) \<le> y / x - 1" using assms y by (intro ln_le_minus_one) simp
  moreover have "ln (y / x) = ln y - ln x" using assms y by (simp add: ln_divide_pos)
  ultimately have "x * (ln y - ln x) \<le> x * (y / x - 1)"
    using assms by (intro mult_left_mono) simp_all
  also have "\<dots> = y - x" using assms by (simp add: field_simps)
  finally have "x * (ln y - ln x) / ln 2 \<le> (y - x) / ln 2"
    using l2 by (simp only: divide_right_mono less_imp_le)
  moreover have "x * (ln y - ln x) / ln 2 = x * (log 2 y - log 2 x)"
    by (simp add: log_def algebra_simps diff_divide_distrib)
  ultimately have "x * (log 2 y - log 2 x) \<le> (y - x) / ln 2" by simp
  then show ?thesis by (simp add: algebra_simps)
qed

lemma term_step_up:
  assumes "1 / 2 \<le> y" "y \<le> x"
  shows "- x * log 2 x \<le> - y * log 2 y + (x - y)"
proof -
  have y: "0 < y" using assms by simp
  have x: "0 < x" using assms by simp
  have "log 2 y \<le> log 2 x" using assms x y by (subst log_le_cancel_iff) simp_all
  then have "y * log 2 y \<le> y * log 2 x" using y by (intro mult_left_mono) simp_all
  moreover have "(x - y) * (- log 2 x) \<le> (x - y) * 1"
    using assms neg_log2_le_1 [of x] by (intro mult_left_mono) simp_all
  ultimately show ?thesis by (simp add: algebra_simps)
qed


subsection \<open>The entropy, rounded\<close>

lemma mul64_uminus: "mul64 (Num (- p)) x = neg64 (mul64 (Num p) x)"
  by (cases x) (auto simp: mul64_def round64_uminus neg64_def)

lemma sub64_swap: "sub64 (neg64 a) b = sub64 (neg64 b) a"
proof -
  have c: "- x - y = - y - x" for x y :: real by simp
  show ?thesis
    by (cases a; cases b) (simp_all add: sub64_def neg64_def c [of _ "_ :: real"])
qed

lemma mul64_neg64: "mul64 (neg64 (Num r)) x = neg64 (mul64 (Num r) x)"
proof -
  have "neg64 (Num r) = Num (- r)" by (simp add: neg64_def)
  then show ?thesis by (simp only: mul64_uminus)
qed

lemma entropy_b64_inside:
  assumes "x \<noteq> Num 0" "x \<noteq> Num 1"
  shows "entropy_of_occupancy_b64 x
     = sub64 (mul64 (neg64 x) (np_log2_64 x))
             (mul64 (sub64 (Num 1) x) (np_log2_64 (sub64 (Num 1) x)))"
  using assms by (simp add: entropy_of_occupancy_b64_def)

lemma entropy_b64_symm:
  assumes "round64 p = Num p" "round64 (1 - p) = Num (1 - p)"
  shows "entropy_of_occupancy_b64 (Num (1 - p)) = entropy_of_occupancy_b64 (Num p)"
proof (cases "p = 0 \<or> p = 1")
  case True
  then show ?thesis by (auto simp: entropy_of_occupancy_b64_def)
next
  case False
  then have np: "Num p \<noteq> Num 0" "Num p \<noteq> Num 1"
    and nq: "Num (1 - p) \<noteq> Num 0" "Num (1 - p) \<noteq> Num 1" by simp_all
  have s1: "sub64 (Num 1) (Num p) = Num (1 - p)" using assms by (simp add: sub64_def)
  have s2: "sub64 (Num 1) (Num (1 - p)) = Num p" using assms by (simp add: sub64_def)
  have "entropy_of_occupancy_b64 (Num p)
      = sub64 (neg64 (mul64 (Num p) (np_log2_64 (Num p))))
              (mul64 (Num (1 - p)) (np_log2_64 (Num (1 - p))))"
    by (simp only: entropy_b64_inside [OF np] s1 mul64_neg64)
  also have "\<dots> = sub64 (neg64 (mul64 (Num (1 - p)) (np_log2_64 (Num (1 - p)))))
                        (mul64 (Num p) (np_log2_64 (Num p)))"
    by (rule sub64_swap)
  also have "\<dots> = entropy_of_occupancy_b64 (Num (1 - p))"
    by (simp only: entropy_b64_inside [OF nq] s2 mul64_neg64)
  finally show ?thesis by simp
qed

lemma entropy_b64_half: "entropy_of_occupancy_b64 (Num (1 / 2)) = Num 1"
proof -
  have h: "round64 (1 / 2) = Num (1 / 2)" using round64_inverse_power2 [of 1] by simp
  have o: "round64 1 = Num 1" using round64_power2 [of 0] by simp
  have "round64 (- 1) = Num (- 1)" using round64_uminus [of 1] o by (simp add: neg64_def)
  moreover have "log 2 (1 / 2 :: real) = - 1" using log2_inverse_power [of 1] by simp
  ultimately have l: "np_log2_64 (Num (1 / 2)) = Num (- 1)" by (simp add: np_log2_64_def)
  have m: "round64 (- (1 / 2)) = Num (- (1 / 2))"
    using round64_uminus [of "1 / 2"] h by (simp add: neg64_def)
  have s: "sub64 (Num 1) (Num (1 / 2)) = Num (1 / 2)" using h by (simp add: sub64_def)
  have a: "mul64 (neg64 (Num (1 / 2))) (Num (- 1)) = Num (1 / 2)"
    using h by (simp add: mul64_def neg64_def)
  have b: "mul64 (Num (1 / 2)) (Num (- 1)) = Num (- (1 / 2))"
    using m by (simp add: mul64_def)
  have c: "sub64 (Num (1 / 2)) (Num (- (1 / 2))) = Num 1" using o by (simp add: sub64_def)
  have "Num (1 / 2) \<noteq> Num 0" "Num (1 / 2) \<noteq> Num 1" by simp_all
  from entropy_b64_inside [OF this] show ?thesis by (simp only: s l a b c)
qed

lemma entropy_b64_saturated:
  assumes "calculate_flux_area_frame_duration_product_b64 self = Num y" "54 \<le> y"
  shows "calculate_pixel_entropy_b64 self = Num 0"
  using occupancy_b64_saturated [OF assms]
  by (simp add: calculate_pixel_entropy_b64_def entropy_of_occupancy_b64_def)

lemma entropy_b64_parts:
  assumes "round64 p = Num p" "0 < p" "p < 1"
  shows "\<exists>q m n a b h. round64 (1 - p) = Num q \<and> round64 (- log 2 p) = Num m
           \<and> round64 (- log 2 q) = Num n \<and> round64 (p * m) = Num a
           \<and> round64 (q * n) = Num b \<and> round64 (a + b) = Num h
           \<and> 0 \<le> a \<and> 0 \<le> b \<and> 0 < h \<and> entropy_of_occupancy_b64 (Num p) = Num h"
proof -
  define l where "l = - log 2 p"
  have ln2: "0 < ln (2::real)" "ln (2::real) < 1" using ln_2_less_1 by simp_all
  have "ln p \<le> p - 1" using assms by (intro ln_le_minus_one)
  also have "\<dots> \<le> - (1 / 2 ^ 53)" using b64_below_one [OF assms] by simp
  finally have a: "1 / 2 ^ 53 \<le> - ln p" by simp
  have "0 \<le> - ln p" using assms by simp
  then have "- ln p * ln 2 \<le> - ln p * 1" using ln2 by (intro mult_left_mono) simp_all
  then have "- ln p \<le> - ln p / ln 2" using ln2 by (simp add: field_simps)
  moreover have "l = - ln p / ln 2" by (simp add: l_def log_def)
  ultimately have lo: "1 / 2 ^ 53 \<le> l" using a by (simp only: order_trans)
  have "log 2 (1 / 2 ^ 1074) \<le> log 2 p"
    using b64_positive_ge_least [OF assms(1,2)] assms by (subst log_le_cancel_iff) simp_all
  then have "l \<le> 1074" using log2_inverse_power [of 1074] by (simp add: l_def)
  moreover have "(1074 :: real) \<le> 2 ^ 11" by simp
  ultimately have hi: "l \<le> 2 ^ 11" by linarith
  from round64_between [OF lo hi] obtain m where
    m: "round64 l = Num m" "1 / 2 ^ 53 \<le> m" "m \<le> 2 ^ 11" by auto
  have one: "p \<le> 1 / 2 \<longrightarrow> 1 \<le> m"
  proof
    assume h: "p \<le> 1 / 2"
    have "1 \<le> l" unfolding l_def using assms(2) h by (rule neg_log2_ge_1)
    from round64_mono [OF _ this m(1)] round64_one show "1 \<le> m" by simp
  qed
  have "np_log2_64 (Num p) = round64 (- l)" using assms by (simp add: np_log2_64_def l_def)
  also have "\<dots> = Num (- m)" using m(1) by (simp add: round64_uminus neg64_def)
  finally have lm: "np_log2_64 (Num p) = Num (- m)" .
  have m0: "0 \<le> m"
  proof -
    have "(0::real) \<le> 1 / 2 ^ 53" by simp
    with m(2) show ?thesis by linarith
  qed
  have "p * m \<le> 1 * 2 ^ 11" using assms m m0 by (intro mult_mono) simp_all
  then have phi: "p * m \<le> 2 ^ 11" by simp
  have "\<exists>j\<le>1074. 1 / 2 ^ j \<le> p * m"
  proof (cases "p \<le> 1 / 2")
    case True
    with one have "1 \<le> m" by simp
    then have "p * 1 \<le> p * m" using assms by (intro mult_left_mono) simp_all
    then have "p \<le> p * m" by simp
    with b64_positive_ge_least [OF assms(1,2)] have "1 / 2 ^ 1074 \<le> p * m"
      by (rule order_trans)
    then show ?thesis by blast
  next
    case False
    then have "(1 / 2) * (1 / 2 ^ 53) \<le> p * m" using m(2) by (intro mult_mono) simp_all
    then have "1 / 2 ^ 54 \<le> p * m" by simp
    moreover have "(54::nat) \<le> 1074" by simp
    ultimately show ?thesis by blast
  qed
  then obtain j where j: "j \<le> 1074" "1 / 2 ^ j \<le> p * m" by blast
  from round64_between [OF j(2) phi j(1)] obtain a where
    a: "round64 (p * m) = Num a" "1 / 2 ^ j \<le> a" "a \<le> 2 ^ 11" by auto
  have a0: "0 \<le> a"
  proof -
    have "(0::real) \<le> 1 / 2 ^ j" by simp
    with a(2) show ?thesis by linarith
  qed
  have A: "mul64 (neg64 (Num p)) (np_log2_64 (Num p)) = Num a"
    using a(1) by (simp add: lm neg64_def mul64_def)
  have "1 / 2 ^ 53 \<le> 1 - p" using b64_below_one [OF assms] by simp
  moreover have "1 - p \<le> 2 ^ 0" using assms by simp
  ultimately obtain q where
    q: "round64 (1 - p) = Num q" "1 / 2 ^ 53 \<le> q" "q \<le> 2 ^ 0"
    using round64_between [of 53 "1 - p" 0] by auto
  have s: "sub64 (Num 1) (Num p) = Num q" using q(1) by (simp add: sub64_def)
  from q have q1: "q \<le> 1" by simp
  have q0: "0 < q"
  proof -
    have "(0::real) < 1 / 2 ^ 53" by simp
    with q(2) show ?thesis by linarith
  qed
  have "log 2 (1 / 2 ^ 53) \<le> log 2 q" using q(2) q0 by (subst log_le_cancel_iff) simp_all
  then have "- log 2 q \<le> 53" using log2_inverse_power [of 53] by simp
  moreover have "(53 :: real) \<le> 2 ^ 6" by simp
  ultimately have nhi: "- log 2 q \<le> 2 ^ 6" by linarith
  have nlo: "0 \<le> - log 2 q" using q1 q0 by simp
  from round64_upto [OF nlo nhi] obtain n where
    n: "round64 (- log 2 q) = Num n" "0 \<le> n" "n \<le> 2 ^ 6" by auto
  have "np_log2_64 (Num q) = round64 (- (- log 2 q))" using q0 by (simp add: np_log2_64_def)
  also have "\<dots> = Num (- n)" using n(1) by (simp only: round64_uminus) (simp add: neg64_def)
  finally have ln: "np_log2_64 (Num q) = Num (- n)" .
  have "q * n \<le> 1 * 2 ^ 6" using q1 q0 n by (intro mult_mono) simp_all
  then have "q * n \<le> 2 ^ 6" by simp
  moreover have "0 \<le> q * n" using q0 n by simp
  ultimately obtain b where b: "round64 (q * n) = Num b" "0 \<le> b" "b \<le> 2 ^ 6"
    using round64_upto [of "q * n" 6] by auto
  have "round64 (q * - n) = round64 (- (q * n))" by simp
  also have "\<dots> = Num (- b)" using b(1) by (simp only: round64_uminus) (simp add: neg64_def)
  finally have B: "mul64 (Num q) (np_log2_64 (Num q)) = Num (- b)"
    by (simp add: ln mul64_def)
  have "1 / 2 ^ j \<le> a + b" using a(2) b(2) by linarith
  moreover have "a + b \<le> 2 ^ 12"
  proof -
    have "(2 ^ 11 + 2 ^ 6 :: real) \<le> 2 ^ 12" by simp
    with a(3) b(3) show ?thesis by linarith
  qed
  ultimately obtain h where h: "round64 (a + b) = Num h" "1 / 2 ^ j \<le> h"
    using round64_between [of j "a + b" 12] j(1) by auto
  have "(0::real) < 1 / 2 ^ j" by simp
  with h(2) have hp: "0 < h" by linarith
  have "Num p \<noteq> Num 0" "Num p \<noteq> Num 1" using assms by simp_all
  from entropy_b64_inside [OF this]
  have "entropy_of_occupancy_b64 (Num p) = sub64 (Num a) (Num (- b))"
    by (simp only: s A B)
  also have "\<dots> = Num h" using h(1) by (simp add: sub64_def)
  finally have "entropy_of_occupancy_b64 (Num p) = Num h" .
  with q(1) m(1) n(1) a(1) b(1) h(1) a0 b(2) hp show ?thesis unfolding l_def by blast
qed

subsection \<open>The bound of one bit, rounded\<close>

text \<open>
  For a binary64 occupancy \<open>p\<close> strictly between 0 and 1 the value returned on line 33 is
  the rounded sum of \<open>a\<close>, the rounded product of \<open>p\<close> and the rounded \<open>- log2 p\<close>, and
  \<open>b\<close>, the rounded product of \<open>q\<close>, the rounded \<open>1 - p\<close>, and the rounded \<open>- log2 q\<close>. It
  is at most 1 as soon as \<open>a + b \<le> 1 + 2 ^ - 53\<close>, which is what the lemmas below show,
  case by case:
  \<^item> for \<open>p \<le> 3 / 8\<close> and for \<open>5 / 8 \<le> p\<close> the exact entropy is below \<open>1 - 1 / 64\<close>, far
    more than the roundings can add;
  \<^item> for \<open>p\<close> between \<open>3 / 8\<close> and \<open>5 / 8\<close> the two logarithms and the two products lie in
    known binades, \<open>a\<close> and \<open>b\<close> are multiples of \<open>2 ^ - 54\<close>, and the rounding errors add up
    to less than \<open>3 * 2 ^ - 54\<close> above the exact entropy, so that \<open>a + b\<close> is at most
    \<open>1 + 2 * 2 ^ - 54\<close>;
  \<^item> but for the case where \<open>1 - p\<close> is halfway between two binary64 numbers and is
    rounded down, so that \<open>p + q\<close> is below 1: then either \<open>p\<close> is more than
    \<open>3 * 2 ^ - 29\<close> below one half and the exact entropy is far enough below 1, or the two
    products are written out in integers and \<open>a\<close> and \<open>b\<close> bounded by numbers of the grid.
\<close>

lemma far_high:
  assumes "round64 p = Num p" "5 / 8 \<le> p" "p < 1"
    and "round64 (1 - p) = Num q"
    and "round64 (- log 2 p) = Num m" "round64 (- log 2 q) = Num n"
    and "round64 (p * m) = Num a" "round64 (q * n) = Num b"
  shows "a + b \<le> 1 + 1 / 2 ^ 53"
proof -
  have p: "0 < p" "1 / 2 \<le> p" "p \<le> 1" using assms by simp_all
  have "round64 (1 - p) = Num (1 - p)" using assms(1) p(2) assms(3) by (rule b64_complement_exact)
  with assms(4) have q: "q = 1 - p" by simp
  have q0: "0 < q" "q \<le> 1" using assms q by simp_all
  have lp: "0 \<le> - log 2 p" using p by simp
  have "- p * log 2 p \<le> 1" using p(1,3) by (rule term_le_1)
  then have "p * (- log 2 p) \<le> 1" by simp
  from two_step_upper [OF lp less_imp_le [OF p(1)] p(3) this assms(5,7)]
  have a: "a \<le> p * (- log 2 p) + 1 / 2 ^ 50" .
  have lq: "0 \<le> - log 2 q" using q0 by simp
  have "- q * log 2 q \<le> 1" using q0 by (rule term_le_1)
  then have "q * (- log 2 q) \<le> 1" by simp
  from two_step_upper [OF lq less_imp_le [OF q0(1)] q0(2) this assms(6,8)]
  have b: "b \<le> q * (- log 2 q) + 1 / 2 ^ 50" .
  have "1 / 8 \<le> p - 1 / 2" using assms by simp
  then have "(1 / 8)\<^sup>2 \<le> (p - 1 / 2)\<^sup>2" by (intro power_mono) simp_all
  then have d: "1 / 64 \<le> (p - 1 / 2)\<^sup>2" by (simp add: power2_eq_square)
  have "- p * log 2 p - (1 - p) * log 2 (1 - p) \<le> 1 - (p - 1 / 2)\<^sup>2"
    using p(1) assms(3) by (rule binary_entropy_deficit)
  then have "p * (- log 2 p) + q * (- log 2 q) \<le> 1 - 1 / 64" using d by (simp add: q)
  with a b have "a + b \<le> 1 - 1 / 64 + 2 / 2 ^ 50" by linarith
  also have "\<dots> \<le> 1 + 1 / 2 ^ 53" by simp
  finally show ?thesis .
qed

lemma far_low:
  assumes "round64 p = Num p" "0 < p" "p \<le> 3 / 8"
    and "round64 (1 - p) = Num q"
    and "round64 (- log 2 p) = Num m" "round64 (- log 2 q) = Num n"
    and "round64 (p * m) = Num a" "round64 (q * n) = Num b"
  shows "a + b \<le> 1 + 1 / 2 ^ 53"
proof -
  define y where "y = 1 - p"
  have y: "5 / 8 \<le> y" "y < 1" "1 / 2 \<le> y" "0 < y" "y \<le> 1" using assms by (simp_all add: y_def)
  have p: "0 < p" "p \<le> 1" "p < 1" using assms by simp_all
  have Q: "round64 y = Num q" using assms(4) by (simp add: y_def)
  from half_binade_upper [OF y(3,2) Q]
  have q: "q \<le> y + 1 / 2 ^ 54" "1 / 2 \<le> q" "q \<le> 1" by auto
  from half_binade [OF y(3,2) Q] obtain N where
    N: "q = of_int N / 2 ^ 53" "\<bar>of_int N - y * 2 ^ 53\<bar> \<le> 1 / 2" by blast
  have "y * 2 ^ 53 - 1 / 2 \<le> of_int N" using N(2) by linarith
  then have "(y * 2 ^ 53 - 1 / 2) / 2 ^ 53 \<le> of_int N / 2 ^ 53"
    by (simp only: divide_right_mono zero_le_power zero_le_numeral)
  then have ql: "y - 1 / 2 ^ 54 \<le> q" by (simp add: N(1) field_simps)
  have q0: "0 < q" using q by simp
  have l2: "1 / ln (2::real) \<le> 3 / 2" using ln2_ge_2_3 by (simp add: field_simps)
  have step: "- q * log 2 q \<le> - y * log 2 y + 2 / 2 ^ 54"
  proof (cases "q \<le> y")
    case True
    have "log 2 y \<le> 0" using y by simp
    then have u: "log 2 y + 1 / ln 2 \<le> 3 / 2" using l2 by linarith
    have "1 \<le> 1 / ln (2::real)" using ln_2_less_1 by (simp add: field_simps)
    then have l: "0 \<le> log 2 y + 1 / ln 2" using neg_log2_le_1 [OF y(3)] by linarith
    have yq: "0 \<le> y - q" "y - q \<le> 1 / 2 ^ 54" using True ql by simp_all
    have "(y - q) * (log 2 y + 1 / ln 2) \<le> (1 / 2 ^ 54) * (3 / 2)"
      using yq u l by (intro mult_mono) simp_all
    also have "\<dots> \<le> (2 / 2 ^ 54 :: real)" by simp
    finally have "(y - q) * (log 2 y + 1 / ln 2) \<le> 2 / 2 ^ 54" .
    with term_step_down [OF q0 True y(5)] show ?thesis by linarith
  next
    case False
    then have "y \<le> q" by simp
    from term_step_up [OF y(3) this] q(1) show ?thesis by simp
  qed
  have lp: "0 \<le> - log 2 p" using p by simp
  have "- p * log 2 p \<le> 1" using p(1,2) by (rule term_le_1)
  then have "p * (- log 2 p) \<le> 1" by simp
  from two_step_upper [OF lp less_imp_le [OF p(1)] p(2) this assms(5,7)]
  have a: "a \<le> p * (- log 2 p) + 1 / 2 ^ 50" .
  have lq: "0 \<le> - log 2 q" using q0 q by simp
  have "- q * log 2 q \<le> 1" using q0 q(3) by (rule term_le_1)
  then have "q * (- log 2 q) \<le> 1" by simp
  from two_step_upper [OF lq less_imp_le [OF q0] q(3) this assms(6,8)]
  have b: "b \<le> q * (- log 2 q) + 1 / 2 ^ 50" .
  have "1 / 8 \<le> 1 / 2 - p" using assms by simp
  then have "(1 / 8)\<^sup>2 \<le> (1 / 2 - p)\<^sup>2" by (intro power_mono) simp_all
  also have "(1 / 2 - p)\<^sup>2 = (p - 1 / 2)\<^sup>2" by (simp add: power2_commute)
  finally have d: "1 / 64 \<le> (p - 1 / 2)\<^sup>2" by (simp add: power2_eq_square)
  have "- p * log 2 p - (1 - p) * log 2 (1 - p) \<le> 1 - (p - 1 / 2)\<^sup>2"
    using p(1,3) by (rule binary_entropy_deficit)
  then have "p * (- log 2 p) + y * (- log 2 y) \<le> 1 - 1 / 64" using d by (simp add: y_def)
  with a b step have "a + b \<le> 1 - 1 / 64 + 2 / 2 ^ 50 + 2 / 2 ^ 54" by simp
  also have "\<dots> \<le> 1 + 1 / 2 ^ 53" by simp
  finally show ?thesis .
qed

lemma mid_high:
  assumes "round64 p = Num p" "1 / 2 < p" "p < 5 / 8"
    and "round64 (1 - p) = Num q"
    and "round64 (- log 2 p) = Num m" "round64 (- log 2 q) = Num n"
    and "round64 (p * m) = Num a" "round64 (q * n) = Num b"
  shows "a + b \<le> 1 + 1 / 2 ^ 53"
proof -
  define u :: real where "u = 1 / 2 ^ 54"
  have u: "0 < u" "1 / 2 ^ 54 = u" "1 / 2 ^ 53 = 2 * u" "1 / 2 ^ 55 = u / 2"
    by (simp_all add: u_def)
  have p: "0 < p" "1 / 2 \<le> p" "p < 1" "p \<le> 5 / 8" using assms by simp_all
  have "round64 (1 - p) = Num (1 - p)" using assms(1) p(2,3) by (rule b64_complement_exact)
  with assms(4) have q: "q = 1 - p" by simp
  have q0: "0 < q" "3 / 8 < q" "q < 1 / 2" "1 / 4 < q" using assms q by simp_all
  from half_binade [OF p(2,3) assms(1)] obtain Np where
    Np: "p = of_int Np / 2 ^ 53" by blast
  have "(of_int (2 ^ 52) :: real) < of_int Np" using assms(2) by (simp add: Np field_simps)
  then have "2 ^ 52 < Np" by (simp only: of_int_less_iff)
  then have "2 ^ 52 + 1 \<le> Np" by simp
  then have "(of_int (2 ^ 52 + 1) :: real) \<le> of_int Np" by (simp only: of_int_le_iff)
  then have "1 / 2 + 1 / 2 ^ 53 \<le> p" by (simp add: Np field_simps)
  then have pd: "2 * u \<le> p - 1 / 2" by (simp add: u_def)
  define l1 where "l1 = - log 2 p"
  define l2 where "l2 = - log 2 q"
  have l1: "1 / 2 \<le> l1" "l1 < 1"
    unfolding l1_def using neg_log2_ge_half [OF p(1,4)] neg_log2_lt_1 [OF assms(2)] by simp_all
  have l2: "1 \<le> l2" "l2 < 2"
    unfolding l2_def using neg_log2_gt_1 [OF q0(1,3)] neg_log2_lt_2 [OF q0(4)] by simp_all
  have M: "round64 l1 = Num m" using assms(5) by (simp add: l1_def)
  have N: "round64 l2 = Num n" using assms(6) by (simp add: l2_def)
  from half_binade_upper [OF l1 M] have m: "m \<le> l1 + u" "1 / 2 \<le> m" "m \<le> 1"
    by (auto simp: u_def)
  from one_binade_upper [OF l2 N] have n: "n \<le> l2 + 2 * u" "1 \<le> n" "n \<le> 2"
    by (auto simp: u_def)
  have "(1 / 2) * (1 / 2) \<le> p * m" using p m by (intro mult_mono) simp_all
  then have pm_lo: "1 / 4 \<le> p * m" by simp
  have "p * m \<le> p * (l1 + u)" using m(1) p(1) by (intro mult_left_mono) simp_all
  then have pm: "p * m \<le> p * l1 + p * u" by (simp add: algebra_simps)
  have "- p * log 2 p \<le> 2 / 3 - p / 3" using p(2) by (rule term_upper_half)
  then have pl: "p * l1 \<le> 2 / 3 - p / 3" by (simp add: l1_def)
  have pu: "p * u \<le> 5 / 8 * u" "1 / 2 * u < p * u"
    using p(4) assms(2) u(1) by (simp_all add: mult_right_mono)
  have pm_hi: "p * m < 1 / 2" using pm pl pu pd u(1) by linarith
  from quarter_binade_upper [OF pm_lo pm_hi assms(7)] obtain A where
    A: "a = of_int A / 2 ^ 54" "a \<le> p * m + u / 2" by (auto simp: u_def)
  have "q * 1 \<le> q * n" using n(2) q0(1) by (intro mult_left_mono) simp_all
  then have qn_lo: "1 / 4 \<le> q * n" using q0 by linarith
  have "q * n \<le> q * 2" using n(3) q0(1) by (intro mult_left_mono) simp_all
  then have qn_hi: "q * n < 1" using q0 by linarith
  from unit_binades_upper [OF qn_lo qn_hi assms(8)] obtain B where
    B: "b = of_int B / 2 ^ 54" "b \<le> q * n + u" by (auto simp: u_def)
  have "q * n \<le> q * (l2 + 2 * u)" using n(1) q0(1) by (intro mult_left_mono) simp_all
  then have qn: "q * n \<le> q * l2 + 2 * (q * u)" by (simp add: algebra_simps)
  have qu: "q * u = u - p * u" by (simp add: q algebra_simps)
  have "- p * log 2 p - (1 - p) * log 2 (1 - p) \<le> 1" using p(1,3) by (rule binary_entropy_le_1)
  then have h: "p * l1 + q * l2 \<le> 1" by (simp add: l1_def l2_def q)
  have "a + b < 1 + 3 * u" using A(2) B(2) pm qn qu h pu(2) by linarith
  then have "a + b < 1 + 3 / 2 ^ 54" by (simp add: u_def)
  with A(1) B(1) show ?thesis by (rule grid_sum_le)
qed

lemma mid_low_crude:
  assumes "3 / 8 < p" "p < 1 / 2" "1 / 2 + 1 / 2 ^ 53 \<le> q" "q \<le> 5 / 8"
    and "round64 (- log 2 p) = Num m" "round64 (- log 2 q) = Num n"
    and "round64 (p * m) = Num a" "round64 (q * n) = Num b"
  shows "\<exists>A B. a = of_int A / 2 ^ 54 \<and> b = of_int B / 2 ^ 54
           \<and> a + b \<le> p * (- log 2 p) + q * (- log 2 q)
                       + 2 * (p * (1 / 2 ^ 54)) + q * (1 / 2 ^ 54) + 3 / 2 * (1 / 2 ^ 54)"
proof -
  define u :: real where "u = 1 / 2 ^ 54"
  have u: "0 < u" by (simp add: u_def)
  have p: "0 < p" "1 / 4 < p" using assms by simp_all
  have "(0::real) < 1 / 2 ^ 53" by simp
  then have qh: "1 / 2 < q" using assms(3) by linarith
  have q: "0 < q" "1 / 2 \<le> q" using qh by simp_all
  have qd: "2 * u \<le> q - 1 / 2" using assms(3) by (simp add: u_def)
  define l1 where "l1 = - log 2 p"
  define l2 where "l2 = - log 2 q"
  have l1: "1 \<le> l1" "l1 < 2"
    unfolding l1_def using neg_log2_gt_1 [OF p(1) assms(2)] neg_log2_lt_2 [OF p(2)] by simp_all
  have l2: "1 / 2 \<le> l2" "l2 < 1"
    unfolding l2_def using neg_log2_ge_half [OF q(1) assms(4)] neg_log2_lt_1 [OF qh] by simp_all
  have M: "round64 l1 = Num m" using assms(5) by (simp add: l1_def)
  have N: "round64 l2 = Num n" using assms(6) by (simp add: l2_def)
  from one_binade_upper [OF l1 M] have m: "m \<le> l1 + 2 * u" "1 \<le> m" "m \<le> 2"
    by (auto simp: u_def)
  from half_binade_upper [OF l2 N] have n: "n \<le> l2 + u" "1 / 2 \<le> n" "n \<le> 1"
    by (auto simp: u_def)
  have "p * 1 \<le> p * m" using m(2) p(1) by (intro mult_left_mono) simp_all
  then have pm_lo: "1 / 4 \<le> p * m" using p by linarith
  have "p * m \<le> p * 2" using m(3) p(1) by (intro mult_left_mono) simp_all
  then have pm_hi: "p * m < 1" using assms(2) by linarith
  from unit_binades_upper [OF pm_lo pm_hi assms(7)] obtain A where
    A: "a = of_int A / 2 ^ 54" "a \<le> p * m + u" by (auto simp: u_def)
  have "p * m \<le> p * (l1 + 2 * u)" using m(1) p(1) by (intro mult_left_mono) simp_all
  then have pm: "p * m \<le> p * l1 + 2 * (p * u)" by (simp add: algebra_simps)
  have "(1 / 2) * (1 / 2) \<le> q * n" using q n by (intro mult_mono) simp_all
  then have qn_lo: "1 / 4 \<le> q * n" by simp
  have "q * n \<le> q * (l2 + u)" using n(1) q(1) by (intro mult_left_mono) simp_all
  then have qn: "q * n \<le> q * l2 + q * u" by (simp add: algebra_simps)
  have "- q * log 2 q \<le> 2 / 3 - q / 3" using q(2) by (rule term_upper_half)
  then have ql: "q * l2 \<le> 2 / 3 - q / 3" by (simp add: l2_def)
  have qu: "q * u \<le> 5 / 8 * u" using assms(4) u by (simp add: mult_right_mono)
  have qn_hi: "q * n < 1 / 2" using qn ql qu qd u by linarith
  from quarter_binade_upper [OF qn_lo qn_hi assms(8)] obtain B where
    B: "b = of_int B / 2 ^ 54" "b \<le> q * n + u / 2" by (auto simp: u_def)
  have "a + b \<le> p * l1 + q * l2 + 2 * (p * u) + q * u + 3 / 2 * u"
    using A(2) B(2) pm qn by linarith
  then show ?thesis using A(1) B(1) unfolding l1_def l2_def u_def by blast
qed

lemma mid_low_up:
  assumes "3 / 8 < p" "p < 1 / 2" "1 - p \<le> q" "1 / 2 + 1 / 2 ^ 53 \<le> q" "q \<le> 5 / 8"
    and "round64 (- log 2 p) = Num m" "round64 (- log 2 q) = Num n"
    and "round64 (p * m) = Num a" "round64 (q * n) = Num b"
  shows "a + b \<le> 1 + 1 / 2 ^ 53"
proof -
  define u :: real where "u = 1 / 2 ^ 54"
  define e where "e = p + q - 1"
  have u: "0 < u" "u \<le> 1 / 3" by (simp_all add: u_def)
  have e: "0 \<le> e" using assms(3) by (simp add: e_def)
  have l2: "0 < ln (2::real)" by simp
  from mid_low_crude [OF assms(1,2,4-9)] obtain A B where
    A: "a = of_int A / 2 ^ 54" and B: "b = of_int B / 2 ^ 54"
    and s: "a + b \<le> p * (- log 2 p) + q * (- log 2 q) + 2 * (p * u) + q * u + 3 / 2 * u"
    unfolding u_def by blast
  have pq: "0 < p" "0 < q" using assms by simp_all
  have "e * ln 2 \<le> e * (3 / 4)" using e ln2_le_3_4 by (intro mult_left_mono) simp_all
  then have "4 / 3 * e \<le> e / ln 2" using l2 by (simp add: pos_le_divide_eq)
  moreover have "(1 - (p + q)) / ln 2 = - (e / ln 2)" by (simp add: e_def field_simps)
  ultimately have "(p + q) + (1 - (p + q)) / ln 2 \<le> (1 + e) - 4 / 3 * e" by (simp add: e_def)
  with two_terms_upper [OF pq] have h: "p * (- log 2 p) + q * (- log 2 q) \<le> 1 - e / 3"
    by simp
  have eu: "e * u \<le> e * (1 / 3)" using e u by (intro mult_left_mono) simp_all
  have qu: "q * u = u + e * u - p * u" by (simp add: e_def algebra_simps)
  have pu: "p * u < 1 / 2 * u" using assms(2) u by (simp add: mult_strict_right_mono)
  have "a + b < 1 + 3 * u" using s h eu qu pu by linarith
  then have "a + b < 1 + 3 / 2 ^ 54" by (simp add: u_def)
  with A B show ?thesis by (rule grid_sum_le)
qed

lemma mid_low_down_large:
  assumes "3 / 8 < p" "p < 1 / 2" "q = 1 - p - 1 / 2 ^ 54" "3 / 2 ^ 29 \<le> 1 / 2 - p"
    and "round64 (- log 2 p) = Num m" "round64 (- log 2 q) = Num n"
    and "round64 (p * m) = Num a" "round64 (q * n) = Num b"
  shows "a + b \<le> 1 + 1 / 2 ^ 53"
proof -
  define u :: real where "u = 1 / 2 ^ 54"
  define d where "d = 1 / 2 - p"
  define d0 :: real where "d0 = 3 / 2 ^ 29"
  define y where "y = 1 - p"
  have u: "0 < u" by (simp add: u_def)
  have d: "d0 \<le> d" "0 < d" "d < 1 / 8" using assms by (simp_all add: d_def d0_def)
  have pd: "p = 1 / 2 - d" by (simp add: d_def)
  have qd: "q = 1 / 2 + d - u" using assms(3) by (simp add: d_def u_def)
  have yd: "y = 1 / 2 + d" by (simp add: y_def d_def)
  have d0u: "2 * u \<le> d0" "3 * u \<le> d0" by (simp_all add: u_def d0_def)
  have q1: "1 / 2 + 1 / 2 ^ 53 \<le> q" using qd d d0u by (simp add: u_def)
  have q2: "q \<le> 5 / 8" using qd d u by simp
  have l2: "0 < ln (2::real)" by simp
  have il2: "1 / ln (2::real) \<le> 3 / 2" using ln2_ge_2_3 by (simp add: field_simps)
  from mid_low_crude [OF assms(1,2) q1 q2 assms(5-8)] obtain A B where
    A: "a = of_int A / 2 ^ 54" and B: "b = of_int B / 2 ^ 54"
    and s: "a + b \<le> p * (- log 2 p) + q * (- log 2 q) + 2 * (p * u) + q * u + 3 / 2 * u"
    unfolding u_def by blast
  have p0: "0 < p" "p < 1" using assms by simp_all
  have "- p * log 2 p - (1 - p) * log 2 (1 - p) \<le> 1 - (p - 1 / 2)\<^sup>2"
    using p0 by (rule binary_entropy_deficit)
  moreover have "(p - 1 / 2)\<^sup>2 = d * d" by (simp add: d_def power2_eq_square algebra_simps)
  ultimately have h: "p * (- log 2 p) + y * (- log 2 y) \<le> 1 - d * d" by (simp add: y_def)
  have q0: "0 < q" using q1 by simp
  have qy: "q \<le> y" "y \<le> 1" "y - q = u" using assms by (simp_all add: y_def u_def)
  have "ln (2 * y) \<le> 2 * y - 1" using qy q0 by (intro ln_le_minus_one) simp
  moreover have "ln (2 * y) = ln 2 + ln y" using qy q0 by (intro ln_mult_pos) simp_all
  ultimately have "ln y \<le> 2 * d - ln 2" by (simp add: yd)
  then have "ln y / ln 2 \<le> (2 * d - ln 2) / ln 2" using l2 by (simp only: divide_right_mono less_imp_le)
  also have "\<dots> = 2 * d * (1 / ln 2) - 1" using l2 by (simp add: field_simps)
  also have "\<dots> \<le> 2 * d * (3 / 2) - 1" using il2 d by (intro diff_right_mono mult_left_mono) simp_all
  finally have "log 2 y \<le> 3 * d - 1" by (simp add: log_def)
  then have c: "log 2 y + 1 / ln 2 \<le> 3 * d + 1 / 2" using il2 by linarith
  have "(y - q) * (log 2 y + 1 / ln 2) \<le> (y - q) * (3 * d + 1 / 2)"
    using c qy(1) by (intro mult_left_mono) simp_all
  also have "\<dots> = 3 * (d * u) + 1 / 2 * u" unfolding qy(3) by (simp add: algebra_simps)
  finally have "- q * log 2 q \<le> - y * log 2 y + (3 * (d * u) + 1 / 2 * u)"
    using term_step_down [OF q0 qy(1,2)] by linarith
  then have st: "q * (- log 2 q) \<le> y * (- log 2 y) + 3 * (d * u) + 1 / 2 * u" by simp
  have pu: "p * u = 1 / 2 * u - d * u" by (simp add: pd algebra_simps)
  have qu: "q * u = 1 / 2 * u + d * u - u * u" by (simp add: qd algebra_simps)
  have "d0 * (d0 - 2 * u) \<le> d * (d - 2 * u)" using d d0u by (intro mult_mono) (simp_all add: d0_def)
  moreover have "d0 * (d0 - 2 * u) = 9 / 16 * u - 6 / 2 ^ 29 * u" by (simp add: d0_def u_def)
  moreover have "6 / 2 ^ 29 * u \<le> 1 / 32 * u" using u by (intro mult_right_mono) simp_all
  ultimately have k: "17 / 32 * u \<le> d * d - 2 * (d * u)" by (simp add: algebra_simps)
  have uu: "0 \<le> u * u" by simp
  have "a + b < 1 + 3 * u" using s h st pu qu k uu u by linarith
  then have "a + b < 1 + 3 / 2 ^ 54" by (simp add: u_def)
  with A B show ?thesis by (rule grid_sum_le)
qed

lemma mid_low_down_small:
  fixes j :: int
  assumes "0 \<le> j" "2 * j + 1 \<le> 3 * 2 ^ 25"
    and "p = 1 / 2 - of_int (2 * j + 1) / 2 ^ 54" "q = 1 / 2 + of_int (2 * j) / 2 ^ 54"
    and "round64 (- log 2 p) = Num m" "round64 (- log 2 q) = Num n"
    and "round64 (p * m) = Num a" "round64 (q * n) = Num b"
  shows "a + b \<le> 1 + 1 / 2 ^ 53"
proof -
  define u :: real where "u = 1 / 2 ^ 54"
  define jr :: real where "jr = of_int j"
  define l1 where "l1 = - log 2 p"
  define l2 where "l2 = - log 2 q"
  have u: "0 < u" "u * 2 ^ 52 = 1 / 4" "u * 2 ^ 53 = 1 / 2" "u * 2 ^ 54 = 1"
    by (simp_all add: u_def)
  have jr: "0 \<le> jr" using assms(1) by (simp add: jr_def)
  have "(of_int (2 * j + 1) :: real) \<le> of_int (3 * 2 ^ 25)"
    using assms(2) by (simp only: of_int_le_iff)
  then have jb: "2 * jr + 1 \<le> 3 * 2 ^ 25" by (simp add: jr_def)
  have pu: "p = 1 / 2 - (2 * jr + 1) * u" using assms(3) by (simp add: u_def jr_def)
  have qu: "q = 1 / 2 + 2 * jr * u" using assms(4) by (simp add: u_def jr_def)
  have "(2 * jr + 1) * u \<le> (3 * 2 ^ 25) * u" using jb u(1) by (intro mult_right_mono) simp_all
  also have "\<dots> = 3 / 2 ^ 29" by (simp add: u_def)
  finally have ku: "(2 * jr + 1) * u \<le> 3 / 2 ^ 29" .
  have ku0: "0 < (2 * jr + 1) * u" using jr u(1) by (intro mult_pos_pos) simp_all
  have ju0: "0 \<le> 2 * jr * u" using jr u(1) by simp
  have ju: "2 * jr * u \<le> 3 / 2 ^ 29" using ku u(1) by (simp add: algebra_simps)
  have p: "0 < p" "1 / 4 < p" "p < 1 / 2" using ku ku0 by (simp_all add: pu)
  have q: "0 < q" "1 / 2 \<le> q" "q \<le> 5 / 8" "q \<le> 2 / 3" using ju ju0 by (simp_all add: qu)
  have M: "round64 l1 = Num m" using assms(5) by (simp add: l1_def)
  have N: "round64 l2 = Num n" using assms(6) by (simp add: l2_def)

  have l1: "1 \<le> l1" "l1 < 2" "1 + 2 * ((2 * jr + 1) * u) < l1"
    unfolding l1_def
    using neg_log2_gt_1 [OF p(1,3)] neg_log2_lt_2 [OF p(2)] neg_log2_below_half [OF p(1,3)]
    by (simp_all add: pu)
  from one_binade [OF l1(1,2) M] obtain Nm where
    Nm: "m = of_int Nm / 2 ^ 52" "\<bar>of_int Nm - l1 * 2 ^ 52\<bar> \<le> 1 / 2" "2 ^ 52 \<le> Nm" "Nm \<le> 2 ^ 53"
    by blast
  have "(1 + 2 * ((2 * jr + 1) * u)) * 2 ^ 52 < l1 * 2 ^ 52"
    using l1(3) by (intro mult_strict_right_mono) simp_all
  moreover have "(1 + 2 * ((2 * jr + 1) * u)) * 2 ^ 52 = 2 ^ 52 + jr + 1 / 2"
    by (simp add: u_def field_simps)
  ultimately have "2 ^ 52 + jr + 1 / 2 < l1 * 2 ^ 52" by (simp only:)
  then have "2 ^ 52 + jr < of_int Nm" using Nm(2) by linarith
  then have "(of_int (2 ^ 52 + j) :: real) < of_int Nm" by (simp add: jr_def)
  then have "2 ^ 52 + j < Nm" by (simp only: of_int_less_iff)
  then have NmL: "2 ^ 52 + j + 1 \<le> Nm" by simp
  define Ga where "Ga = Nm - j - 1"
  have Ga: "2 ^ 52 \<le> Ga" "Ga < 2 ^ 53" using NmL Nm(4) assms(1) by (simp_all add: Ga_def)
  have GaR: "(of_int Ga :: real) = of_int Nm - jr - 1" by (simp add: Ga_def jr_def)
  have "(of_int (2 ^ 52 + 1) :: real) \<le> of_int Nm"
    using NmL assms(1) by (simp only: of_int_le_iff)
  then have m1: "1 < m" by (simp add: Nm(1) field_simps)
  have "(2 * jr + 1) * u * 1 < (2 * jr + 1) * u * m" using ku0 m1 by (intro mult_strict_left_mono)
  then have "p * m < m / 2 - (2 * jr + 1) * u" by (simp add: pu algebra_simps)
  also have "m / 2 - (2 * jr + 1) * u = of_int Ga / 2 ^ 53 + 1 / 2 ^ 54"
    by (simp add: Nm(1) GaR u_def field_simps)
  finally have pm: "p * m < of_int Ga / 2 ^ 53 + 1 / 2 ^ 54" .
  have pm0: "0 \<le> p * m" using p(1) m1 by simp
  from round64_below_midpoint [OF Ga pm0 pm] assms(7)
  have a: "a \<le> of_int Ga / 2 ^ 53" by simp

  have l2: "1 / 2 \<le> l2" "l2 \<le> 1" "l2 \<le> 1 - 2 * (2 * jr * u)"
    unfolding l2_def
    using neg_log2_ge_half [OF q(1,3)] neg_log2_le_1 [OF q(2)] neg_log2_above_half [OF q(2,4)]
    by (simp_all add: qu)
  have "\<exists>Nn. n = of_int Nn / 2 ^ 53 \<and> of_int Nn \<le> l2 * 2 ^ 53 + 1 / 2
           \<and> 2 ^ 52 \<le> Nn \<and> Nn \<le> 2 ^ 53"
  proof (cases "l2 < 1")
    case True
    from half_binade [OF l2(1) True N] obtain K where
      K: "n = of_int K / 2 ^ 53" "\<bar>of_int K - l2 * 2 ^ 53\<bar> \<le> 1 / 2" "2 ^ 52 \<le> K" "K \<le> 2 ^ 53"
      by blast
    from K(2) have "of_int K \<le> l2 * 2 ^ 53 + 1 / 2" by linarith
    with K(1,3,4) show ?thesis by blast
  next
    case False
    then have e: "l2 = 1" using l2(2) by simp
    then have "n = 1" using N round64_one by simp
    then have "n = of_int (2 ^ 53) / 2 ^ 53 \<and> of_int (2 ^ 53) \<le> l2 * 2 ^ 53 + 1 / 2
           \<and> (2 ^ 52 :: int) \<le> 2 ^ 53 \<and> (2 ^ 53 :: int) \<le> 2 ^ 53" by (simp add: e)
    then show ?thesis ..
  qed
  then obtain Nn where
    Nn: "n = of_int Nn / 2 ^ 53" "of_int Nn \<le> l2 * 2 ^ 53 + 1 / 2" "2 ^ 52 \<le> Nn" "Nn \<le> 2 ^ 53"
    by blast
  have "l2 * 2 ^ 53 \<le> (1 - 2 * (2 * jr * u)) * 2 ^ 53"
    using l2(3) by (intro mult_right_mono) simp_all
  moreover have "(1 - 2 * (2 * jr * u)) * 2 ^ 53 = 2 ^ 53 - 2 * jr"
    by (simp add: u_def field_simps)
  ultimately have "l2 * 2 ^ 53 \<le> 2 ^ 53 - 2 * jr" by (simp only:)
  then have "of_int Nn < (2 ^ 53 - 2 * jr + 1 :: real)" using Nn(2) by linarith
  then have "(of_int Nn :: real) < of_int (2 ^ 53 - 2 * j + 1)" by (simp add: jr_def)
  then have "Nn < 2 ^ 53 - 2 * j + 1" by (simp only: of_int_less_iff)
  then have NnU: "Nn \<le> 2 ^ 53 - 2 * j" by simp
  define Gb where "Gb = Nn + 2 * j"
  have Gb: "0 \<le> Gb" "Gb \<le> 2 ^ 53" using NnU Nn(3) assms(1) by (simp_all add: Gb_def)
  have GbR: "(of_int Gb :: real) = of_int Nn + 2 * jr" by (simp add: Gb_def jr_def)
  have "(of_int Nn :: real) \<le> of_int (2 ^ 53)" using Nn(4) by (simp only: of_int_le_iff)
  then have n1: "n \<le> 1" by (simp add: Nn(1) field_simps)
  have "(0 :: real) \<le> of_int Nn" using Nn(3) by simp
  then have n0: "0 \<le> n" by (simp add: Nn(1))
  have "2 * jr * u * n \<le> 2 * jr * u * 1" using ju0 n1 by (intro mult_left_mono)
  then have "q * n \<le> n / 2 + 2 * jr * u" by (simp add: qu algebra_simps)
  also have "n / 2 + 2 * jr * u = of_int Gb / 2 ^ 54"
    by (simp add: Nn(1) GbR u_def field_simps)
  finally have qn: "q * n \<le> of_int Gb / 2 ^ 54" .
  have qn0: "0 \<le> q * n" using q(1) n0 by simp
  from round64_mono [OF qn0 qn round64_grid_le [OF Gb]] assms(8)
  have b: "b \<le> of_int Gb / 2 ^ 54" by simp

  define z where "z = 1 - 4 * (p * q)"
  have zf: "z = 2 * u + 4 * (((2 * jr + 1) * u) * (2 * jr * u))"
    by (simp add: z_def pu qu algebra_simps)
  have "0 \<le> ((2 * jr + 1) * u) * (2 * jr * u)"
    using less_imp_le [OF ku0] ju0 by (rule mult_nonneg_nonneg)
  then have z0: "0 \<le> z" using zf u(1) by linarith
  have "((2 * jr + 1) * u) * (2 * jr * u) \<le> (3 / 2 ^ 29) * (3 / 2 ^ 29)"
    using ku ju ku0 ju0 by (intro mult_mono) simp_all
  also have "\<dots> = 9 / 16 * u" by (simp add: u_def)
  finally have zu: "z \<le> 17 / 4 * u" using zf by linarith
  have "17 / 4 * u \<le> 1 / 100" by (simp add: u_def)
  with zu have z1: "z \<le> 1 / 100" by linarith
  have "- log 2 p - log 2 q \<le> 2 + 38 / 25 * z"
    using p(1) q(1) z_def z0 z1 by (rule neg_log2_product)
  then have "l1 + l2 \<le> 2 + 38 / 25 * (17 / 4 * u)" using zu by (simp add: l1_def l2_def)
  then have "(l1 + l2) * 2 ^ 53 \<le> (2 + 38 / 25 * (17 / 4 * u)) * 2 ^ 53"
    by (intro mult_right_mono) simp_all
  also have "\<dots> = 2 ^ 54 + 38 / 25 * (17 / 4) * (u * 2 ^ 53)" by (simp add: algebra_simps)
  also have "\<dots> = 2 ^ 54 + 323 / 100" unfolding u(3) by simp
  finally have ls: "l1 * 2 ^ 53 + l2 * 2 ^ 53 \<le> 2 ^ 54 + 323 / 100" by (simp add: algebra_simps)
  have "l1 * 2 ^ 53 = 2 * (l1 * 2 ^ 52)" by simp
  moreover have "of_int Nm \<le> l1 * 2 ^ 52 + 1 / 2" using Nm(2) by linarith
  ultimately have "2 * of_int Nm + of_int Nn < (2 ^ 54 + 5 :: real)" using ls Nn(2) by linarith
  then have "(of_int (2 * Nm + Nn) :: real) < of_int (2 ^ 54 + 5)" by simp
  then have "2 * Nm + Nn < 2 ^ 54 + 5" by (simp only: of_int_less_iff)
  then have "2 * Ga + Gb \<le> 2 ^ 54 + 2" by (simp add: Ga_def Gb_def)
  then have "(of_int (2 * Ga + Gb) :: real) \<le> of_int (2 ^ 54 + 2)" by (simp only: of_int_le_iff)
  then have "of_int (2 * Ga + Gb) / 2 ^ 54 \<le> (of_int (2 ^ 54 + 2) / 2 ^ 54 :: real)"
    by (simp only: divide_right_mono zero_le_power zero_le_numeral)
  moreover have "of_int Ga / 2 ^ 53 + of_int Gb / 2 ^ 54 = (of_int (2 * Ga + Gb) / 2 ^ 54 :: real)"
    by (simp add: field_simps)
  moreover have "(of_int (2 ^ 54 + 2) / 2 ^ 54 :: real) = 1 + 1 / 2 ^ 53" by simp
  ultimately have "of_int Ga / 2 ^ 53 + of_int Gb / 2 ^ 54 \<le> (1 + 1 / 2 ^ 53 :: real)" by simp
  with a b show ?thesis by linarith
qed

lemma mid_low:
  assumes "round64 p = Num p" "3 / 8 < p" "p < 1 / 2"
    and "round64 (1 - p) = Num q"
    and "round64 (- log 2 p) = Num m" "round64 (- log 2 q) = Num n"
    and "round64 (p * m) = Num a" "round64 (q * n) = Num b"
  shows "a + b \<le> 1 + 1 / 2 ^ 53"
proof -
  define y where "y = 1 - p"
  have y: "1 / 2 \<le> y" "y < 1" "1 / 2 < y" "y \<le> 5 / 8" "0 \<le> y" using assms by (simp_all add: y_def)
  have Q: "round64 y = Num q" using assms(4) by (simp add: y_def)
  have p4: "1 / 4 \<le> p" using assms by simp
  from quarter_binade [OF p4 assms(3,1)] obtain Np where
    Np: "p = of_int Np / 2 ^ 54" by blast
  from half_binade [OF y(1,2) Q] obtain Nq where
    Nq: "q = of_int Nq / 2 ^ 53" "\<bar>of_int Nq - y * 2 ^ 53\<bar> \<le> 1 / 2" "2 ^ 52 \<le> Nq"
    by blast
  from round64_mono [OF y(5,4) round64_five_eighths] Q have q5: "q \<le> 5 / 8" by simp
  have yN: "y * 2 ^ 53 = 2 ^ 53 - of_int Np / 2" by (simp add: y_def Np field_simps)
  show ?thesis
  proof (cases "y \<le> q")
    case True
    then have "1 / 2 < q" using y by simp
    then have "(of_int (2 ^ 52) :: real) < of_int Nq" by (simp add: Nq(1) field_simps)
    then have "2 ^ 52 < Nq" by (simp only: of_int_less_iff)
    then have "2 ^ 52 + 1 \<le> Nq" by simp
    then have "(of_int (2 ^ 52 + 1) :: real) \<le> of_int Nq" by (simp only: of_int_le_iff)
    then have q1: "1 / 2 + 1 / 2 ^ 53 \<le> q" by (simp add: Nq(1) field_simps)
    have "1 - p \<le> q" using True by (simp add: y_def)
    from mid_low_up [OF assms(2,3) this q1 q5 assms(5-8)] show ?thesis .
  next
    case False
    then have "of_int Nq < y * 2 ^ 53" by (simp add: Nq(1) field_simps)
    then have "2 * of_int Nq + of_int Np < (2 ^ 54 :: real)" unfolding yN by simp
    then have "(of_int (2 * Nq + Np) :: real) < of_int (2 ^ 54)" by simp
    then have lt: "2 * Nq + Np < 2 ^ 54" by (simp only: of_int_less_iff)
    have "y * 2 ^ 53 - 1 / 2 \<le> of_int Nq" using Nq(2) by linarith
    then have "(2 ^ 54 - 1 :: real) \<le> 2 * of_int Nq + of_int Np" unfolding yN by simp
    then have "(of_int (2 ^ 54 - 1) :: real) \<le> of_int (2 * Nq + Np)" by simp
    then have "2 ^ 54 - 1 \<le> 2 * Nq + Np" by (simp only: of_int_le_iff)
    with lt have eq: "Np = 2 ^ 54 - 1 - 2 * Nq" by simp
    define j where "j = Nq - 2 ^ 52"
    have j0: "0 \<le> j" using Nq(3) by (simp add: j_def)
    have NpJ: "Np = 2 ^ 53 - (2 * j + 1)" by (simp add: eq j_def)
    have NqJ: "Nq = 2 ^ 52 + j" by (simp add: j_def)
    have pj: "p = 1 / 2 - of_int (2 * j + 1) / 2 ^ 54"
      unfolding Np NpJ by (simp add: field_simps)
    have qj: "q = 1 / 2 + of_int (2 * j) / 2 ^ 54"
      unfolding Nq(1) NqJ by (simp add: field_simps)
    show ?thesis
    proof (cases "2 * j + 1 \<le> 3 * 2 ^ 25")
      case True
      from mid_low_down_small [OF j0 True pj qj assms(5-8)] show ?thesis .
    next
      case False
      then have "3 * 2 ^ 25 \<le> 2 * j + 1" by simp
      then have "(of_int (3 * 2 ^ 25) :: real) \<le> of_int (2 * j + 1)" by (simp only: of_int_le_iff)
      then have "of_int (3 * 2 ^ 25) / 2 ^ 54 \<le> (of_int (2 * j + 1) / 2 ^ 54 :: real)"
        by (simp only: divide_right_mono zero_le_power zero_le_numeral)
      moreover have "(of_int (3 * 2 ^ 25) / 2 ^ 54 :: real) = 3 / 2 ^ 29" by simp
      ultimately have d: "3 / 2 ^ 29 \<le> 1 / 2 - p" unfolding pj by simp
      have "q = 1 - p - 1 / 2 ^ 54" unfolding pj qj by (simp add: field_simps)
      from mid_low_down_large [OF assms(2,3) this d assms(5-8)] show ?thesis .
    qed
  qed
qed

lemma at_half:
  assumes "p = 1 / 2"
    and "round64 (1 - p) = Num q"
    and "round64 (- log 2 p) = Num m" "round64 (- log 2 q) = Num n"
    and "round64 (p * m) = Num a" "round64 (q * n) = Num b"
  shows "a + b \<le> 1 + 1 / 2 ^ 53"
proof -
  have "(1 - 1 / 2 :: real) = 1 / 2" by simp
  with assms(2) round64_half have q: "q = 1 / 2" unfolding assms(1) by simp
  have l: "- log 2 (1 / 2 :: real) = 1" by (simp only: log2_half)
  from assms(3) round64_one have m: "m = 1" unfolding assms(1) l by simp
  from assms(4) round64_one have n: "n = 1" unfolding q l by simp
  from assms(5) round64_half have "a = 1 / 2" unfolding assms(1) m by simp
  moreover from assms(6) round64_half have "b = 1 / 2" unfolding q n by simp
  ultimately show ?thesis by simp
qed

lemma rounded_terms_le:
  assumes "round64 p = Num p" "0 < p" "p < 1"
    and "round64 (1 - p) = Num q"
    and "round64 (- log 2 p) = Num m" "round64 (- log 2 q) = Num n"
    and "round64 (p * m) = Num a" "round64 (q * n) = Num b"
  shows "a + b \<le> 1 + 1 / 2 ^ 53"
proof -
  consider "5 / 8 \<le> p" | "p \<le> 3 / 8" | "1 / 2 < p" "p < 5 / 8" | "p = 1 / 2"
    | "3 / 8 < p" "p < 1 / 2" by linarith
  then show ?thesis
  proof cases
    case 1
    from far_high [OF assms(1) 1 assms(3-8)] show ?thesis .
  next
    case 2
    from far_low [OF assms(1,2) 2 assms(4-8)] show ?thesis .
  next
    case 3
    from mid_high [OF assms(1) 3 assms(4-8)] show ?thesis .
  next
    case 4
    from at_half [OF 4 assms(4-8)] show ?thesis .
  next
    case 5
    from mid_low [OF assms(1) 5 assms(4-8)] show ?thesis .
  qed
qed

lemma entropy_b64_bounds:
  assumes "round64 p = Num p" "0 < p" "p < 1"
  shows "\<exists>h. entropy_of_occupancy_b64 (Num p) = Num h \<and> 0 < h \<and> h \<le> 1"
proof -
  from entropy_b64_parts [OF assms] obtain q m n a b h where
    r: "round64 (1 - p) = Num q" "round64 (- log 2 p) = Num m" "round64 (- log 2 q) = Num n"
      "round64 (p * m) = Num a" "round64 (q * n) = Num b"
    and h: "round64 (a + b) = Num h" "0 \<le> a" "0 \<le> b" "0 < h"
      "entropy_of_occupancy_b64 (Num p) = Num h" by blast
  have "a + b \<le> 1 + 1 / 2 ^ 53" using assms r by (rule rounded_terms_le)
  moreover have "0 \<le> a + b" using h(2,3) by simp
  ultimately have "\<exists>v. round64 (a + b) = Num v \<and> v \<le> 1" by (intro round64_le_one)
  with h(1) have "h \<le> 1" by simp
  with h(4,5) show ?thesis by blast
qed

lemma entropy_b64_zero_iff:
  assumes "round64 q = Num q" "0 \<le> q" "q \<le> 1"
  shows "entropy_of_occupancy_b64 (Num q) = Num 0 \<longleftrightarrow> q = 0 \<or> q = 1"
proof (cases "q = 0 \<or> q = 1")
  case True
  then show ?thesis by (auto simp: entropy_of_occupancy_b64_def)
next
  case False
  then have "0 < q" "q < 1" using assms by simp_all
  from entropy_b64_bounds [OF assms(1) this] False show ?thesis by auto
qed

subsection \<open>Occupancies that the code can hold\<close>

text \<open>
  An occupancy strictly between 0 and 1 that \<open>calculate_pixel_occupancy\<close> returns is a
  binary64 number, whatever the fields; the Python float \<open>1e-300\<close> is the binary64 number
  nearest to \<open>10 ^ - 300\<close>; with the three fields equal to 1 the occupancy is strictly
  between 0 and 1.
\<close>

lemma occupancy_b64_representable:
  assumes "calculate_pixel_occupancy_b64 self = Num y" "0 < y" "y < 1"
  shows "round64 y = Num y"
proof -
  define X where "X = np_exp64 (neg64 (calculate_flux_area_frame_duration_product_b64 self))"
  have s: "sub64 (Num 1) X = Num y"
    using assms(1) by (simp add: calculate_pixel_occupancy_b64_def X_def)
  then obtain r where r: "X = Num r" by (cases X) (simp_all add: sub64_def)
  define x where "x = 1 - r"
  have R: "round64 x = Num y" using s r by (simp add: sub64_def x_def)
  have x0: "0 \<le> x"
  proof (rule ccontr)
    assume "\<not> 0 \<le> x"
    then have n: "0 \<le> - x" by simp
    have "round64 x = neg64 (round64 (- x))" using round64_uminus [of "- x"] by simp
    with R have "neg64 (round64 (- x)) = Num y" by simp
    with round64_nonneg [OF n] have "y \<le> 0" by (auto simp: neg64_def)
    with assms(2) show False by simp
  qed
  have x1: "x \<le> 1"
  proof (rule ccontr)
    assume "\<not> x \<le> 1"
    then have "1 \<le> x" by simp
    from round64_mono [OF _ this R] round64_one have "1 \<le> y" by simp
    with assms(3) show False by simp
  qed
  from x0 x1 R show ?thesis by (rule round64_idem_unit)
qed

lemma entropy_b64_of_occupancy:
  assumes "calculate_pixel_occupancy_b64 self = Num y" "0 < y" "y < 1"
  shows "\<exists>h. calculate_pixel_entropy_b64 self = Num h \<and> 0 < h \<and> h \<le> 1"
proof -
  have "round64 y = Num y" using assms by (rule occupancy_b64_representable)
  from entropy_b64_bounds [OF this assms(2,3)] show ?thesis
    by (simp add: calculate_pixel_entropy_b64_def assms(1))
qed

lemma float_1e300:
  "\<exists>t. round64 (1 / 10 ^ 300) = Num t \<and> round64 t = Num t \<and> 0 < t \<and> t < 1"
proof -
  define d :: real where "d = 1 / 10 ^ 300"
  have "(10 ^ 3 :: real) ^ 100 \<le> (2 ^ 10) ^ 100" by (rule power_mono) simp_all
  moreover have "(10 ^ 3 :: real) ^ 100 = 10 ^ (3 * 100)" by (rule power_mult [symmetric])
  moreover have "((2::real) ^ 10) ^ 100 = 2 ^ (10 * 100)" by (rule power_mult [symmetric])
  moreover have "(3 * 100 :: nat) = 300" "(10 * 100 :: nat) = 1000" by simp_all
  ultimately have le: "(10::real) ^ 300 \<le> 2 ^ 1000" by (simp only:)
  have p: "(0::real) < 10 ^ 300" by (rule zero_less_power) simp
  have "(1::real) / 2 ^ 1000 \<le> 1 / 10 ^ 300"
    using zero_le_one order_refl p le by (rule frac_le)
  then have lo: "1 / 2 ^ 1000 \<le> d" by (simp only: d_def)
  have "(10::real) ^ 1 \<le> 10 ^ 300" by (rule power_increasing) simp_all
  then have "(10::real) \<le> 10 ^ 300" by (simp only: power_one_right)
  moreover have "(2::real) \<le> 10" by simp
  ultimately have "(2::real) \<le> 10 ^ 300" by (rule order_trans [rotated])
  then have "(2::real) \<le> 10 ^ 300" .
  moreover have "(0::real) < 2" by simp
  ultimately have "(1::real) / 10 ^ 300 \<le> 1 / 2"
    using zero_le_one order_refl by (intro frac_le)
  then have hi: "d \<le> 1 / 2" by (simp only: d_def)
  have z: "(0::real) < 1 / 2 ^ 1000" by (rule divide_pos_pos) (rule zero_less_one, rule zero_less_power, simp)
  have d0: "0 \<le> d" using lo z by linarith
  have d1: "d \<le> 1" using hi by linarith
  from round64_mono [OF d0 hi round64_half] obtain t where
    t: "round64 d = Num t" "t \<le> 1 / 2" by blast
  have "round64 (1 / 2 ^ 1000) = Num (1 / 2 ^ 1000)" by (rule round64_tiny_power2) simp
  moreover from round64_mono [OF less_imp_le [OF z] lo t(1)] obtain v where
    "round64 (1 / 2 ^ 1000) = Num v" "v \<le> t" by blast
  ultimately have "1 / 2 ^ 1000 \<le> t" by simp
  with z have t0: "0 < t" by linarith
  have "t < 1" using t(2) by linarith
  moreover have "round64 t = Num t" using d0 d1 t(1) by (rule round64_idem_unit)
  ultimately show ?thesis using t(1) t0 unfolding d_def by blast
qed

lemma unit_parameters_occupancy:
  "\<exists>y. calculate_pixel_occupancy_b64 \<lparr>flux = 1, pixel_area = 1, frame_duration = 1\<rparr> = Num y
       \<and> 0 < y \<and> y < 1"
proof -
  have l: "calculate_flux_area_frame_duration_product_b64
      \<lparr>flux = 1, pixel_area = 1, frame_duration = 1\<rparr> = Num 1"
    using round64_one by (simp add: calculate_flux_area_frame_duration_product_b64_def mul64_def)
  have "(2::real) \<le> exp 1" using exp_ge_add_one_self [of "1::real"] by simp
  then have "1 / exp 1 \<le> (1 / 2 :: real)" by (intro divide_left_mono) simp_all
  then have hi: "exp (- 1) \<le> (1 / 2 :: real)" by (simp add: exp_minus inverse_eq_divide)
  have "exp (1::real) \<le> 1 + 1 + 1\<^sup>2" by (rule exp_bound) simp_all
  then have "exp (1::real) \<le> 4" by simp
  then have "(1 / 4 :: real) \<le> 1 / exp 1" by (intro divide_left_mono) simp_all
  then have lo: "(1 / 4 :: real) \<le> exp (- 1)" by (simp add: exp_minus inverse_eq_divide)
  have e0: "(0::real) \<le> exp (- 1)" by simp
  from round64_mono [OF e0 hi round64_half] obtain E where
    E: "round64 (exp (- 1)) = Num E" "E \<le> 1 / 2" by blast
  have r4: "round64 (1 / 4) = Num (1 / 4)" using round64_inverse_power2 [of 2] by simp
  have "(0::real) \<le> 1 / 4" by simp
  from round64_mono [OF this lo E(1)] obtain v where "round64 (1 / 4) = Num v" "v \<le> E" by blast
  with r4 have E4: "1 / 4 \<le> E" by simp
  have a: "0 \<le> 1 - E" "1 - E \<le> 3 / 4" "1 / 2 \<le> 1 - E" using E(2) E4 by simp_all
  from round64_mono [OF a(1,2) round64_three_quarters] obtain y where
    y: "round64 (1 - E) = Num y" "y \<le> 3 / 4" by blast
  have "(0::real) \<le> 1 / 2" by simp
  from round64_mono [OF this a(3) y(1)] obtain w where "round64 (1 / 2) = Num w" "w \<le> y" by blast
  with round64_half have "1 / 2 \<le> y" by simp
  then have "0 < y" "y < 1" using y(2) by simp_all
  moreover have "calculate_pixel_occupancy_b64 \<lparr>flux = 1, pixel_area = 1, frame_duration = 1\<rparr> = Num y"
    using E(1) y(1) by (simp add: calculate_pixel_occupancy_b64_def l neg64_def np_exp64_def sub64_def)
  ultimately show ?thesis by blast
qed


subsection \<open>Edge cases and symmetry\<close>

text \<open>
  C3. \<open>calculate_pixel_entropy\<close> applies lines 31 to 33 to the occupancy. There the value is
  \<open>0.0\<close> when the occupancy is exactly 0 or exactly 1, by comparison for equality; for
  every occupancy strictly between 0 and 1, however close to an end, the formula
  \<open>- p * log2 p - (1 - p) * log2 (1 - p)\<close> is what is returned, and it is positive and at
  most 1 bit; the entropy is 0 for no other occupancy than 0 and 1, and it is 1 bit at
  occupancy one half. This holds in exact arithmetic, for every real occupancy, and in
  binary64, where
  \<^item> for every occupancy other than 0 and 1 (a number, an infinity or \<open>nan\<close>) the value is
    the formula with each of its operations rounded, no other case being made;
  \<^item> for every binary64 occupancy strictly between 0 and 1 (the float \<open>1e-300\<close> in the
    witness) the value is a number, above 0 and at most 1;
  \<^item> for a binary64 occupancy from 0 to 1 the value is 0 exactly at 0 and at 1, and it is
    exactly 1 at one half;
  \<^item> whatever the fields, when the occupancy computed from them is a number strictly
    between 0 and 1, the entropy computed from them is a number above 0 and at most 1.
  \<open>np.log2\<close> is taken to return the binary64 number nearest to the exact logarithm.
\<close>

theorem entropy_edge_cases:
  "calculate_pixel_entropy self = entropy_of_occupancy (calculate_pixel_occupancy self)
   \<and> entropy_of_occupancy 0 = Num 0
   \<and> entropy_of_occupancy 1 = Num 0
   \<and> (0 < q \<and> q < 1 \<longrightarrow>
        entropy_of_occupancy q = Num (- q * log 2 q - (1 - q) * log 2 (1 - q))
        \<and> 0 < - q * log 2 q - (1 - q) * log 2 (1 - q)
        \<and> - q * log 2 q - (1 - q) * log 2 (1 - q) \<le> 1)
   \<and> (entropy_of_occupancy q = Num 0 \<longleftrightarrow> q = 0 \<or> q = 1)
   \<and> entropy_of_occupancy (1 / 2) = Num 1
   \<and> calculate_pixel_entropy_b64 self
       = entropy_of_occupancy_b64 (calculate_pixel_occupancy_b64 self)
   \<and> entropy_of_occupancy_b64 (Num 0) = Num 0
   \<and> entropy_of_occupancy_b64 (Num 1) = Num 0
   \<and> (x \<noteq> Num 0 \<and> x \<noteq> Num 1 \<longrightarrow>
        entropy_of_occupancy_b64 x
          = sub64 (mul64 (neg64 x) (np_log2_64 x))
                  (mul64 (sub64 (Num 1) x) (np_log2_64 (sub64 (Num 1) x))))
   \<and> (round64 q = Num q \<and> 0 < q \<and> q < 1 \<longrightarrow>
        (\<exists>h. entropy_of_occupancy_b64 (Num q) = Num h \<and> 0 < h \<and> h \<le> 1))
   \<and> (round64 q = Num q \<and> 0 \<le> q \<and> q \<le> 1 \<longrightarrow>
        (entropy_of_occupancy_b64 (Num q) = Num 0 \<longleftrightarrow> q = 0 \<or> q = 1))
   \<and> entropy_of_occupancy_b64 (Num (1 / 2)) = Num 1
   \<and> (calculate_pixel_occupancy_b64 self = Num y \<and> 0 < y \<and> y < 1 \<longrightarrow>
        (\<exists>h. calculate_pixel_entropy_b64 self = Num h \<and> 0 < h \<and> h \<le> 1))"
proof -
  have "calculate_pixel_entropy self = entropy_of_occupancy (calculate_pixel_occupancy self)"
    by (simp add: calculate_pixel_entropy_def)
  moreover have "entropy_of_occupancy 0 = Num 0" "entropy_of_occupancy 1 = Num 0"
    by (simp_all add: entropy_of_occupancy_def)
  moreover have "0 < q \<and> q < 1 \<longrightarrow>
        entropy_of_occupancy q = Num (- q * log 2 q - (1 - q) * log 2 (1 - q))
        \<and> 0 < - q * log 2 q - (1 - q) * log 2 (1 - q)
        \<and> - q * log 2 q - (1 - q) * log 2 (1 - q) \<le> 1"
    using entropy_of_occupancy_inside [of q] binary_entropy_pos [of q] binary_entropy_le_1 [of q]
    by blast
  moreover note entropy_zero_iff [of q] entropy_of_occupancy_half
  moreover have "calculate_pixel_entropy_b64 self
       = entropy_of_occupancy_b64 (calculate_pixel_occupancy_b64 self)"
    by (simp add: calculate_pixel_entropy_b64_def)
  moreover have "entropy_of_occupancy_b64 (Num 0) = Num 0" "entropy_of_occupancy_b64 (Num 1) = Num 0"
    by (simp_all add: entropy_of_occupancy_b64_def)
  moreover have "x \<noteq> Num 0 \<and> x \<noteq> Num 1 \<longrightarrow>
        entropy_of_occupancy_b64 x
          = sub64 (mul64 (neg64 x) (np_log2_64 x))
                  (mul64 (sub64 (Num 1) x) (np_log2_64 (sub64 (Num 1) x)))"
    using entropy_b64_inside [of x] by blast
  moreover have "round64 q = Num q \<and> 0 < q \<and> q < 1 \<longrightarrow>
        (\<exists>h. entropy_of_occupancy_b64 (Num q) = Num h \<and> 0 < h \<and> h \<le> 1)"
    using entropy_b64_bounds [of q] by blast
  moreover have "round64 q = Num q \<and> 0 \<le> q \<and> q \<le> 1 \<longrightarrow>
        (entropy_of_occupancy_b64 (Num q) = Num 0 \<longleftrightarrow> q = 0 \<or> q = 1)"
    using entropy_b64_zero_iff [of q] by blast
  moreover note entropy_b64_half
  moreover have "calculate_pixel_occupancy_b64 self = Num y \<and> 0 < y \<and> y < 1 \<longrightarrow>
        (\<exists>h. calculate_pixel_entropy_b64 self = Num h \<and> 0 < h \<and> h \<le> 1)"
    using entropy_b64_of_occupancy [of self y] by blast
  ultimately show ?thesis by blast
qed

theorem entropy_edge_cases_witness:
  "(0::real) < 1 / 10 ^ 300 \<and> (1::real) / 10 ^ 300 < 1
   \<and> (\<exists>h. entropy_of_occupancy (1 / 10 ^ 300) = Num h \<and> 0 < h \<and> h \<le> 1)
   \<and> entropy_of_occupancy (1 / 10 ^ 300) \<noteq> Num 0
   \<and> calculate_pixel_entropy \<lparr>flux = ln 2, pixel_area = 1, frame_duration = 1\<rparr> = Num 1
   \<and> (\<exists>t h. round64 (1 / 10 ^ 300) = Num t \<and> round64 t = Num t \<and> 0 < t \<and> t < 1
          \<and> entropy_of_occupancy_b64 (Num t) = Num h \<and> 0 < h \<and> h \<le> 1
          \<and> entropy_of_occupancy_b64 (Num t) \<noteq> Num 0
          \<and> entropy_of_occupancy_b64 (Num t)
              = sub64 (mul64 (neg64 (Num t)) (np_log2_64 (Num t)))
                  (mul64 (sub64 (Num 1) (Num t)) (np_log2_64 (sub64 (Num 1) (Num t)))))
   \<and> (\<exists>y h. calculate_pixel_occupancy_b64 \<lparr>flux = 1, pixel_area = 1, frame_duration = 1\<rparr> = Num y
          \<and> 0 < y \<and> y < 1
          \<and> calculate_pixel_entropy_b64 \<lparr>flux = 1, pixel_area = 1, frame_duration = 1\<rparr> = Num h
          \<and> 0 < h \<and> h \<le> 1)
   \<and> calculate_pixel_occupancy_b64
        \<lparr>flux = 2 ^ 26, pixel_area = 1 / 2 ^ 20, frame_duration = 1\<rparr> = Num 1
   \<and> calculate_pixel_entropy_b64
        \<lparr>flux = 2 ^ 26, pixel_area = 1 / 2 ^ 20, frame_duration = 1\<rparr> = Num 0"
proof -
  define p :: real where "p = 1 / 10 ^ 300"
  have r: "0 < p \<and> p < 1" by (simp add: p_def)
  have o: "calculate_pixel_occupancy \<lparr>flux = ln 2, pixel_area = 1, frame_duration = 1\<rparr> = 1 / 2"
    by (simp add: calculate_pixel_occupancy_def calculate_flux_area_frame_duration_product_def
        exp_minus)
  note e = entropy_edge_cases [of "\<lparr>flux = ln 2, pixel_area = 1, frame_duration = 1\<rparr>" p]
  from e r have a: "\<exists>h. entropy_of_occupancy p = Num h \<and> 0 < h \<and> h \<le> 1"
    by blast
  from e r have b: "entropy_of_occupancy p \<noteq> Num 0"
    by auto
  from e o
  have c: "calculate_pixel_entropy \<lparr>flux = ln 2, pixel_area = 1, frame_duration = 1\<rparr> = Num 1"
    by simp
  from float_1e300 obtain t where
    t: "round64 p = Num t" "round64 t = Num t" "0 < t" "t < 1" unfolding p_def by blast
  have tn: "Num t \<noteq> Num 0" "Num t \<noteq> Num 1" using t(3,4) by simp_all
  note f = entropy_edge_cases
    [of "\<lparr>flux = 2 ^ 26, pixel_area = 1 / 2 ^ 20, frame_duration = 1\<rparr>" t "Num t"]
  from f t obtain h where h: "entropy_of_occupancy_b64 (Num t) = Num h" "0 < h" "h \<le> 1"
    by blast
  have "round64 t = Num t \<and> 0 \<le> t \<and> t \<le> 1" using t(2,3,4) by simp
  with f have "entropy_of_occupancy_b64 (Num t) = Num 0 \<longleftrightarrow> t = 0 \<or> t = 1" by blast
  with t(3,4) have hn: "entropy_of_occupancy_b64 (Num t) \<noteq> Num 0" by simp
  from f tn have hf: "entropy_of_occupancy_b64 (Num t)
              = sub64 (mul64 (neg64 (Num t)) (np_log2_64 (Num t)))
                  (mul64 (sub64 (Num 1) (Num t)) (np_log2_64 (sub64 (Num 1) (Num t))))"
    by blast
  from t h hn hf have d: "\<exists>t h. round64 p = Num t \<and> round64 t = Num t \<and> 0 < t \<and> t < 1
          \<and> entropy_of_occupancy_b64 (Num t) = Num h \<and> 0 < h \<and> h \<le> 1
          \<and> entropy_of_occupancy_b64 (Num t) \<noteq> Num 0
          \<and> entropy_of_occupancy_b64 (Num t)
              = sub64 (mul64 (neg64 (Num t)) (np_log2_64 (Num t)))
                  (mul64 (sub64 (Num 1) (Num t)) (np_log2_64 (sub64 (Num 1) (Num t))))"
    by blast
  from unit_parameters_occupancy obtain y where
    y: "calculate_pixel_occupancy_b64 \<lparr>flux = 1, pixel_area = 1, frame_duration = 1\<rparr> = Num y"
      "0 < y" "y < 1" by blast
  note g = entropy_edge_cases [of "\<lparr>flux = 1, pixel_area = 1, frame_duration = 1\<rparr>" _ _ y]
  from g y have u: "\<exists>y h. calculate_pixel_occupancy_b64 \<lparr>flux = 1, pixel_area = 1, frame_duration = 1\<rparr> = Num y
          \<and> 0 < y \<and> y < 1
          \<and> calculate_pixel_entropy_b64 \<lparr>flux = 1, pixel_area = 1, frame_duration = 1\<rparr> = Num h
          \<and> 0 < h \<and> h \<le> 1"
    by blast
  have "(2 ^ 26 * (1 / 2 ^ 20) :: real) = 2 ^ 6" by simp
  then have "calculate_flux_area_frame_duration_product_b64
      \<lparr>flux = 2 ^ 26, pixel_area = 1 / 2 ^ 20, frame_duration = 1\<rparr> = Num 64"
    using round64_power2 [of 6]
    by (simp add: calculate_flux_area_frame_duration_product_b64_def mul64_def)
  from occupancy_b64_saturated [OF this]
  have s: "calculate_pixel_occupancy_b64
        \<lparr>flux = 2 ^ 26, pixel_area = 1 / 2 ^ 20, frame_duration = 1\<rparr> = Num 1" by simp
  with f have z: "calculate_pixel_entropy_b64
        \<lparr>flux = 2 ^ 26, pixel_area = 1 / 2 ^ 20, frame_duration = 1\<rparr> = Num 0" by simp
  from r a b c d u s z show ?thesis unfolding p_def by blast
qed


text \<open>
  C7. The entropy computed from an occupancy \<open>q\<close> in the closed interval from 0 to 1 is
  the entropy computed from \<open>1 - q\<close>: in exact arithmetic, and in binary64 whenever \<open>q\<close> and
  \<open>1 - q\<close> are both binary64 numbers (numbers that rounding leaves as they are).
\<close>

theorem entropy_symmetric:
  assumes "0 \<le> q" "q \<le> 1"
  shows "entropy_of_occupancy (1 - q) = entropy_of_occupancy q
       \<and> (round64 q = Num q \<and> round64 (1 - q) = Num (1 - q) \<longrightarrow>
            entropy_of_occupancy_b64 (Num (1 - q)) = entropy_of_occupancy_b64 (Num q))"
  using assms entropy_b64_symm [of q] by (simp add: entropy_symm)

theorem entropy_symmetric_witness:
  "(0::real) \<le> 1 / 4 \<and> (1::real) / 4 \<le> 1
   \<and> entropy_of_occupancy (3 / 4) = entropy_of_occupancy (1 / 4)
   \<and> round64 (1 / 4) = Num (1 / 4) \<and> round64 (3 / 4) = Num (3 / 4)
   \<and> entropy_of_occupancy_b64 (Num (3 / 4)) = entropy_of_occupancy_b64 (Num (1 / 4))"
proof -
  have a: "round64 (1 / 4) = Num (1 / 4)" using round64_inverse_power2 [of 2] by simp
  have b: "round64 (3 / 4) = Num (3 / 4)" by (rule round64_three_quarters)
  have c: "(1 - 1 / 4 :: real) = 3 / 4" by simp
  from entropy_symmetric [of "1 / 4"] a b show ?thesis unfolding c by simp
qed

section \<open>Zero flux\<close>

text \<open>
  C6. With flux 0 and pixel area and frame duration above 0, every quantity of the chain
  is exactly 0: the mean number of hits per frame, the occupancy, the entropy, the
  entropy per square centimetre and the entropy per square centimetre and per second (no
  division raises). The first three are exactly 0 in binary64 as well, the entropy by the
  test on line 31; what is then divided is that \<open>0.0\<close>.
\<close>

theorem zero_flux_chain:
  assumes "flux self = 0" "0 < pixel_area self" "0 < frame_duration self"
  shows "calculate_flux_area_frame_duration_product self = 0
       \<and> calculate_pixel_occupancy self = 0
       \<and> calculate_pixel_entropy self = Num 0
       \<and> calculate_entropy_per_cm2 self = Inr (Num 0)
       \<and> calculate_entropy_per_cm2_per_s self = Inr (Num 0)
       \<and> calculate_flux_area_frame_duration_product_b64 self = Num 0
       \<and> calculate_pixel_occupancy_b64 self = Num 0
       \<and> calculate_pixel_entropy_b64 self = Num 0"
proof -
  have z: "round64 0 = Num 0" by (simp add: round64_def)
  have o: "round64 1 = Num 1" using round64_power2 [of 0] by simp
  have p: "calculate_flux_area_frame_duration_product_b64 self = Num 0"
    using assms z by (simp add: calculate_flux_area_frame_duration_product_b64_def mul64_def)
  then have q: "calculate_pixel_occupancy_b64 self = Num 0"
    using z o by (simp add: calculate_pixel_occupancy_b64_def neg64_def np_exp64_def sub64_def)
  then have "calculate_pixel_entropy_b64 self = Num 0"
    by (simp add: calculate_pixel_entropy_b64_def entropy_of_occupancy_b64_def)
  with p q show ?thesis
    using assms
    by (simp add: calculate_flux_area_frame_duration_product_def calculate_pixel_occupancy_def
        calculate_pixel_entropy_def entropy_of_occupancy_def calculate_entropy_per_cm2_def
        calculate_entropy_per_cm2_per_s_def py_truediv_def)
qed

theorem zero_flux_chain_witness:
  "calculate_flux_area_frame_duration_product
      \<lparr>flux = 0, pixel_area = 1 / 10 ^ 6, frame_duration = 1 / 10 ^ 7\<rparr> = 0
   \<and> calculate_pixel_occupancy \<lparr>flux = 0, pixel_area = 1 / 10 ^ 6, frame_duration = 1 / 10 ^ 7\<rparr> = 0
   \<and> calculate_pixel_entropy \<lparr>flux = 0, pixel_area = 1 / 10 ^ 6, frame_duration = 1 / 10 ^ 7\<rparr> = Num 0
   \<and> calculate_entropy_per_cm2
        \<lparr>flux = 0, pixel_area = 1 / 10 ^ 6, frame_duration = 1 / 10 ^ 7\<rparr> = Inr (Num 0)
   \<and> calculate_entropy_per_cm2_per_s
        \<lparr>flux = 0, pixel_area = 1 / 10 ^ 6, frame_duration = 1 / 10 ^ 7\<rparr> = Inr (Num 0)
   \<and> calculate_pixel_occupancy_b64
        \<lparr>flux = 0, pixel_area = 1 / 10 ^ 6, frame_duration = 1 / 10 ^ 7\<rparr> = Num 0
   \<and> calculate_pixel_entropy_b64
        \<lparr>flux = 0, pixel_area = 1 / 10 ^ 6, frame_duration = 1 / 10 ^ 7\<rparr> = Num 0"
  using zero_flux_chain [of "\<lparr>flux = 0, pixel_area = 1 / 10 ^ 6, frame_duration = 1 / 10 ^ 7\<rparr>"]
  by simp

section \<open>Construction and assignment check nothing\<close>

text \<open>
  C1, as amended. Construction and assignment to a field never fail and check no range:
  whatever the three numbers are, construction returns an instance that holds them, and an
  assignment returns the instance with that field replaced and the other two as they were.
\<close>

theorem construction_unchecked:
  "(\<exists>q. init_InputParameters f a d = Inr q
        \<and> flux q = f \<and> pixel_area q = a \<and> frame_duration q = d)
   \<and> (\<exists>q. setattr_flux p v = Inr q
        \<and> flux q = v \<and> pixel_area q = pixel_area p \<and> frame_duration q = frame_duration p)
   \<and> (\<exists>q. setattr_pixel_area p v = Inr q
        \<and> flux q = flux p \<and> pixel_area q = v \<and> frame_duration q = frame_duration p)
   \<and> (\<exists>q. setattr_frame_duration p v = Inr q
        \<and> flux q = flux p \<and> pixel_area q = pixel_area p \<and> frame_duration q = v)"
  by (simp add: init_InputParameters_def setattr_flux_def setattr_pixel_area_def
      setattr_frame_duration_def)

text \<open>
  Construction with flux \<open>- 1\<close> returns an instance, and the derived quantities are
  computed from it: the mean number of hits per second is negative and the entropy is
  numpy's \<open>nan\<close>.
\<close>

theorem construction_unchecked_counterexample:
  "init_InputParameters (- 1) (1 / 10 ^ 6) (1 / 10 ^ 7)
     = Inr \<lparr>flux = - 1, pixel_area = 1 / 10 ^ 6, frame_duration = 1 / 10 ^ 7\<rparr>
   \<and> calculate_flux_area_product
         \<lparr>flux = - 1, pixel_area = 1 / 10 ^ 6, frame_duration = 1 / 10 ^ 7\<rparr> = - 1 / 10 ^ 6
   \<and> calculate_pixel_entropy
         \<lparr>flux = - 1, pixel_area = 1 / 10 ^ 6, frame_duration = 1 / 10 ^ 7\<rparr> = NaN"
  by (simp add: init_InputParameters_def calculate_flux_area_product_def
      calculate_pixel_entropy_def calculate_pixel_occupancy_def
      calculate_flux_area_frame_duration_product_def entropy_of_occupancy_def np_log2_def)

section \<open>The sweeps\<close>

lemma zero_divisor_numerator:
  assumes "pixel_area self = 0 \<or> frame_duration self = 0"
  shows "calculate_pixel_entropy self = Num 0"
  using assms
  by (auto simp: calculate_pixel_entropy_def calculate_pixel_occupancy_def
      calculate_flux_area_frame_duration_product_def entropy_of_occupancy_def)

lemma per_s_defined:
  assumes "pixel_area self \<noteq> 0" "frame_duration self \<noteq> 0"
  shows "\<exists>h. calculate_entropy_per_cm2_per_s self = Inr h"
  using assms
  by (simp add: calculate_entropy_per_cm2_per_s_def calculate_entropy_per_cm2_def py_truediv_def)

lemma flux_loop_run:
  assumes "pixel_area ip \<noteq> 0" "frame_duration ip \<noteq> 0"
  shows "\<exists>final res. flux_loop ip vs acc = Inr (final, acc @ res)
           \<and> map fst res = vs
           \<and> map (Inr \<circ> snd) res = map (\<lambda>v. calculate_entropy_per_cm2_per_s (ip\<lparr>flux := v\<rparr>)) vs
           \<and> pixel_area final = pixel_area ip \<and> frame_duration final = frame_duration ip"
  using assms
proof (induction vs arbitrary: ip acc)
  case Nil
  then show ?case by simp
next
  case (Cons v vs)
  let ?ip = "ip\<lparr>flux := v\<rparr>"
  have nz: "pixel_area ?ip \<noteq> 0" "frame_duration ?ip \<noteq> 0" using Cons.prems by simp_all
  from per_s_defined [OF nz] obtain h where h: "calculate_entropy_per_cm2_per_s ?ip = Inr h"
    by blast
  from Cons.IH [OF nz, of "acc @ [(v, h)]"] obtain final res where
    r: "flux_loop ?ip vs (acc @ [(v, h)]) = Inr (final, (acc @ [(v, h)]) @ res)"
      "map fst res = vs"
      "map (Inr \<circ> snd) res = map (\<lambda>w. calculate_entropy_per_cm2_per_s (?ip\<lparr>flux := w\<rparr>)) vs"
      "pixel_area final = pixel_area ?ip" "frame_duration final = frame_duration ?ip"
    by blast
  have "flux_loop ip (v # vs) acc = Inr (final, acc @ ((v, h) # res))"
    using r(1) h by (simp add: setattr_flux_def)
  moreover have "map fst ((v, h) # res) = v # vs" using r(2) by simp
  moreover have "map (Inr \<circ> snd) ((v, h) # res)
      = map (\<lambda>w. calculate_entropy_per_cm2_per_s (ip\<lparr>flux := w\<rparr>)) (v # vs)"
    using r(3) h by simp
  moreover have "pixel_area final = pixel_area ip" "frame_duration final = frame_duration ip"
    using r(4,5) by simp_all
  ultimately show ?case
    by (intro exI [of _ final] exI [of _ "(v, h) # res"] conjI)
qed

lemma frame_duration_loop_run:
  assumes "pixel_area ip \<noteq> 0" "\<forall>v\<in>set vs. v \<noteq> 0"
  shows "\<exists>final res. frame_duration_loop ip vs acc = Inr (final, acc @ res)
           \<and> map fst res = vs
           \<and> map (Inr \<circ> snd) res
               = map (\<lambda>v. calculate_entropy_per_cm2_per_s (ip\<lparr>frame_duration := v\<rparr>)) vs
           \<and> flux final = flux ip \<and> pixel_area final = pixel_area ip"
  using assms
proof (induction vs arbitrary: ip acc)
  case Nil
  then show ?case by simp
next
  case (Cons v vs)
  let ?ip = "ip\<lparr>frame_duration := v\<rparr>"
  have nz: "pixel_area ?ip \<noteq> 0" "frame_duration ?ip \<noteq> 0" using Cons.prems by simp_all
  have rest: "\<forall>w\<in>set vs. w \<noteq> 0" using Cons.prems by simp
  from per_s_defined [OF nz] obtain h where h: "calculate_entropy_per_cm2_per_s ?ip = Inr h"
    by blast
  from Cons.IH [OF nz(1) rest, of "acc @ [(v, h)]"] obtain final res where
    r: "frame_duration_loop ?ip vs (acc @ [(v, h)]) = Inr (final, (acc @ [(v, h)]) @ res)"
      "map fst res = vs"
      "map (Inr \<circ> snd) res
         = map (\<lambda>w. calculate_entropy_per_cm2_per_s (?ip\<lparr>frame_duration := w\<rparr>)) vs"
      "flux final = flux ?ip" "pixel_area final = pixel_area ?ip"
    by blast
  have "frame_duration_loop ip (v # vs) acc = Inr (final, acc @ ((v, h) # res))"
    using r(1) h by (simp add: setattr_frame_duration_def)
  moreover have "map fst ((v, h) # res) = v # vs" using r(2) by simp
  moreover have "map (Inr \<circ> snd) ((v, h) # res)
      = map (\<lambda>w. calculate_entropy_per_cm2_per_s (ip\<lparr>frame_duration := w\<rparr>)) (v # vs)"
    using r(3) h by simp
  moreover have "flux final = flux ip" "pixel_area final = pixel_area ip"
    using r(4,5) by simp_all
  ultimately show ?case
    by (intro exI [of _ final] exI [of _ "(v, h) # res"] conjI)
qed

lemma pixel_area_loop_run:
  assumes "frame_duration ip \<noteq> 0" "\<forall>v\<in>set vs. v \<noteq> 0"
  shows "\<exists>final res. pixel_area_loop ip vs acc = Inr (final, acc @ res)
           \<and> map fst res = vs
           \<and> map (Inr \<circ> snd) res
               = map (\<lambda>v. calculate_entropy_per_cm2_per_s (ip\<lparr>pixel_area := v\<rparr>)) vs
           \<and> flux final = flux ip \<and> frame_duration final = frame_duration ip"
  using assms
proof (induction vs arbitrary: ip acc)
  case Nil
  then show ?case by simp
next
  case (Cons v vs)
  let ?ip = "ip\<lparr>pixel_area := v\<rparr>"
  have nz: "pixel_area ?ip \<noteq> 0" "frame_duration ?ip \<noteq> 0" using Cons.prems by simp_all
  have rest: "\<forall>w\<in>set vs. w \<noteq> 0" using Cons.prems by simp
  from per_s_defined [OF nz] obtain h where h: "calculate_entropy_per_cm2_per_s ?ip = Inr h"
    by blast
  from Cons.IH [OF nz(2) rest, of "acc @ [(v, h)]"] obtain final res where
    r: "pixel_area_loop ?ip vs (acc @ [(v, h)]) = Inr (final, (acc @ [(v, h)]) @ res)"
      "map fst res = vs"
      "map (Inr \<circ> snd) res
         = map (\<lambda>w. calculate_entropy_per_cm2_per_s (?ip\<lparr>pixel_area := w\<rparr>)) vs"
      "flux final = flux ?ip" "frame_duration final = frame_duration ?ip"
    by blast
  have "pixel_area_loop ip (v # vs) acc = Inr (final, acc @ ((v, h) # res))"
    using r(1) h by (simp add: setattr_pixel_area_def)
  moreover have "map fst ((v, h) # res) = v # vs" using r(2) by simp
  moreover have "map (Inr \<circ> snd) ((v, h) # res)
      = map (\<lambda>w. calculate_entropy_per_cm2_per_s (ip\<lparr>pixel_area := w\<rparr>)) (v # vs)"
    using r(3) h by simp
  moreover have "flux final = flux ip" "frame_duration final = frame_duration ip"
    using r(4,5) by simp_all
  ultimately show ?case
    by (intro exI [of _ final] exI [of _ "(v, h) # res"] conjI)
qed

lemma update_as_fresh:
  "base\<lparr>flux := v\<rparr>
     = \<lparr>flux = v, pixel_area = pixel_area base, frame_duration = frame_duration base\<rparr>"
  "base\<lparr>pixel_area := v\<rparr>
     = \<lparr>flux = flux base, pixel_area = v, frame_duration = frame_duration base\<rparr>"
  "base\<lparr>frame_duration := v\<rparr>
     = \<lparr>flux = flux base, pixel_area = pixel_area base, frame_duration = v\<rparr>"
  by simp_all

text \<open>
  C8. A sweep over a list of values for one field, started on a base instance whose other
  two fields are the base values, returns one pair per value, in the order of the list;
  the first component of a pair is the value, the second is what
  \<open>calculate_entropy_per_cm2_per_s\<close> returns on a fresh instance with that value and the base
  values of the other two fields; the other two fields of the shared instance are the base
  values at the end as well. The pixel area and the frame duration met on the way are not
  zero (they are above 0 in a parameter set within the ranges); with a zero the division
  raises and the loop returns no list.
\<close>

theorem sweep_pairs:
  "(pixel_area base \<noteq> 0 \<and> frame_duration base \<noteq> 0 \<longrightarrow>
      (\<exists>final res. flux_loop base vs [] = Inr (final, res)
         \<and> map fst res = vs
         \<and> map (Inr \<circ> snd) res
             = map (\<lambda>v. calculate_entropy_per_cm2_per_s
                 \<lparr>flux = v, pixel_area = pixel_area base, frame_duration = frame_duration base\<rparr>) vs
         \<and> pixel_area final = pixel_area base \<and> frame_duration final = frame_duration base))
   \<and> (pixel_area base \<noteq> 0 \<and> (\<forall>v\<in>set vs. v \<noteq> 0) \<longrightarrow>
      (\<exists>final res. frame_duration_loop base vs [] = Inr (final, res)
         \<and> map fst res = vs
         \<and> map (Inr \<circ> snd) res
             = map (\<lambda>v. calculate_entropy_per_cm2_per_s
                 \<lparr>flux = flux base, pixel_area = pixel_area base, frame_duration = v\<rparr>) vs
         \<and> flux final = flux base \<and> pixel_area final = pixel_area base))
   \<and> (frame_duration base \<noteq> 0 \<and> (\<forall>v\<in>set vs. v \<noteq> 0) \<longrightarrow>
      (\<exists>final res. pixel_area_loop base vs [] = Inr (final, res)
         \<and> map fst res = vs
         \<and> map (Inr \<circ> snd) res
             = map (\<lambda>v. calculate_entropy_per_cm2_per_s
                 \<lparr>flux = flux base, pixel_area = v, frame_duration = frame_duration base\<rparr>) vs
         \<and> flux final = flux base \<and> frame_duration final = frame_duration base))"
proof (intro conjI impI)
  assume "pixel_area base \<noteq> 0 \<and> frame_duration base \<noteq> 0"
  then show "\<exists>final res. flux_loop base vs [] = Inr (final, res)
         \<and> map fst res = vs
         \<and> map (Inr \<circ> snd) res
             = map (\<lambda>v. calculate_entropy_per_cm2_per_s
                 \<lparr>flux = v, pixel_area = pixel_area base, frame_duration = frame_duration base\<rparr>) vs
         \<and> pixel_area final = pixel_area base \<and> frame_duration final = frame_duration base"
    using flux_loop_run [of base vs "[]"] by (simp add: update_as_fresh)
next
  assume "pixel_area base \<noteq> 0 \<and> (\<forall>v\<in>set vs. v \<noteq> 0)"
  then show "\<exists>final res. frame_duration_loop base vs [] = Inr (final, res)
         \<and> map fst res = vs
         \<and> map (Inr \<circ> snd) res
             = map (\<lambda>v. calculate_entropy_per_cm2_per_s
                 \<lparr>flux = flux base, pixel_area = pixel_area base, frame_duration = v\<rparr>) vs
         \<and> flux final = flux base \<and> pixel_area final = pixel_area base"
    using frame_duration_loop_run [of base vs "[]"] by (simp add: update_as_fresh)
next
  assume "frame_duration base \<noteq> 0 \<and> (\<forall>v\<in>set vs. v \<noteq> 0)"
  then show "\<exists>final res. pixel_area_loop base vs [] = Inr (final, res)
         \<and> map fst res = vs
         \<and> map (Inr \<circ> snd) res
             = map (\<lambda>v. calculate_entropy_per_cm2_per_s
                 \<lparr>flux = flux base, pixel_area = v, frame_duration = frame_duration base\<rparr>) vs
         \<and> flux final = flux base \<and> frame_duration final = frame_duration base"
    using pixel_area_loop_run [of base vs "[]"] by (simp add: update_as_fresh)
qed

theorem sweep_pairs_witness:
  "pixel_area base_parameters \<noteq> 0 \<and> frame_duration base_parameters \<noteq> 0
   \<and> (\<exists>final res. flux_loop base_parameters flux_values [] = Inr (final, res)
         \<and> map fst res = flux_values \<and> length res = 7
         \<and> map (Inr \<circ> snd) res
             = map (\<lambda>v. calculate_entropy_per_cm2_per_s
                 \<lparr>flux = v, pixel_area = pixel_area base_parameters,
                  frame_duration = frame_duration base_parameters\<rparr>) flux_values)
   \<and> (\<exists>final res. frame_duration_loop base_parameters frame_duration_values [] = Inr (final, res)
         \<and> map fst res = frame_duration_values \<and> length res = 5
         \<and> map (Inr \<circ> snd) res
             = map (\<lambda>v. calculate_entropy_per_cm2_per_s
                 \<lparr>flux = flux base_parameters, pixel_area = pixel_area base_parameters,
                  frame_duration = v\<rparr>) frame_duration_values)
   \<and> (\<exists>final res. pixel_area_loop base_parameters pixel_area_values [] = Inr (final, res)
         \<and> map fst res = pixel_area_values \<and> length res = 7
         \<and> map (Inr \<circ> snd) res
             = map (\<lambda>v. calculate_entropy_per_cm2_per_s
                 \<lparr>flux = flux base_parameters, pixel_area = v,
                  frame_duration = frame_duration base_parameters\<rparr>) pixel_area_values)"
proof -
  have b: "pixel_area base_parameters \<noteq> 0 \<and> frame_duration base_parameters \<noteq> 0"
    by (simp add: base_parameters_def)
  have d: "\<forall>v\<in>set frame_duration_values. v \<noteq> 0"
    by (simp add: frame_duration_values_def)
  have a: "\<forall>v\<in>set pixel_area_values. v \<noteq> 0"
    by (simp add: pixel_area_values_def)
  have lf: "length flux_values = 7" by (simp add: flux_values_def)
  have ld: "length frame_duration_values = 5" by (simp add: frame_duration_values_def)
  have la: "length pixel_area_values = 7" by (simp add: pixel_area_values_def)
  from sweep_pairs [of base_parameters flux_values] b obtain f1 r1 where
    1: "flux_loop base_parameters flux_values [] = Inr (f1, r1)" "map fst r1 = flux_values"
      "map (Inr \<circ> snd) r1
         = map (\<lambda>v. calculate_entropy_per_cm2_per_s
             \<lparr>flux = v, pixel_area = pixel_area base_parameters,
              frame_duration = frame_duration base_parameters\<rparr>) flux_values"
    by blast
  from sweep_pairs [of base_parameters frame_duration_values] b d obtain f2 r2 where
    2: "frame_duration_loop base_parameters frame_duration_values [] = Inr (f2, r2)"
      "map fst r2 = frame_duration_values"
      "map (Inr \<circ> snd) r2
         = map (\<lambda>v. calculate_entropy_per_cm2_per_s
             \<lparr>flux = flux base_parameters, pixel_area = pixel_area base_parameters,
              frame_duration = v\<rparr>) frame_duration_values"
    by blast
  from sweep_pairs [of base_parameters pixel_area_values] b a obtain f3 r3 where
    3: "pixel_area_loop base_parameters pixel_area_values [] = Inr (f3, r3)"
      "map fst r3 = pixel_area_values"
      "map (Inr \<circ> snd) r3
         = map (\<lambda>v. calculate_entropy_per_cm2_per_s
             \<lparr>flux = flux base_parameters, pixel_area = v,
              frame_duration = frame_duration base_parameters\<rparr>) pixel_area_values"
    by blast
  have "length r1 = 7" using 1(2) lf by (metis length_map)
  moreover have "length r2 = 5" using 2(2) ld by (metis length_map)
  moreover have "length r3 = 7" using 3(2) la by (metis length_map)
  ultimately show ?thesis using b 1 2 3 by blast
qed

section \<open>Purity and equality\<close>

text \<open>
  The state transformers return the instance they were given, and their results are the
  values of the functions of the derivation chain.
\<close>

lemma flux_area_product_st:
  "calculate_flux_area_product_st self = (calculate_flux_area_product self, self)"
  by (simp add: calculate_flux_area_product_st_def calculate_flux_area_product_def)

lemma flux_area_frame_duration_product_st:
  "calculate_flux_area_frame_duration_product_st self
     = (calculate_flux_area_frame_duration_product self, self)"
  by (simp add: calculate_flux_area_frame_duration_product_st_def
      calculate_flux_area_frame_duration_product_def)

lemma pixel_occupancy_st:
  "calculate_pixel_occupancy_st self = (calculate_pixel_occupancy self, self)"
  by (simp add: calculate_pixel_occupancy_st_def calculate_pixel_occupancy_def
      flux_area_frame_duration_product_st)

lemma pixel_entropy_st:
  "calculate_pixel_entropy_st self = (calculate_pixel_entropy self, self)"
  by (simp add: calculate_pixel_entropy_st_def calculate_pixel_entropy_def pixel_occupancy_st)

lemma entropy_per_cm2_st:
  "calculate_entropy_per_cm2_st self = (calculate_entropy_per_cm2 self, self)"
  by (simp add: calculate_entropy_per_cm2_st_def calculate_entropy_per_cm2_def pixel_entropy_st)

lemma entropy_per_cm2_per_s_st:
  "calculate_entropy_per_cm2_per_s_st self = (calculate_entropy_per_cm2_per_s self, self)"
  by (simp add: calculate_entropy_per_cm2_per_s_st_def calculate_entropy_per_cm2_per_s_def
      entropy_per_cm2_st split: sum.splits)

lemma chain_of_fields:
  fixes a :: "'a InputParameters_scheme" and b :: "'b InputParameters_scheme"
  assumes "flux a = flux b" "pixel_area a = pixel_area b" "frame_duration a = frame_duration b"
  shows "calculate_flux_area_product a = calculate_flux_area_product b"
    and "calculate_flux_area_frame_duration_product a = calculate_flux_area_frame_duration_product b"
    and "calculate_pixel_occupancy a = calculate_pixel_occupancy b"
    and "calculate_pixel_entropy a = calculate_pixel_entropy b"
    and "calculate_entropy_per_cm2 a = calculate_entropy_per_cm2 b"
    and "calculate_entropy_per_cm2_per_s a = calculate_entropy_per_cm2_per_s b"
  using assms
  by (simp_all add: calculate_flux_area_product_def calculate_flux_area_frame_duration_product_def
      calculate_pixel_occupancy_def calculate_pixel_entropy_def calculate_entropy_per_cm2_def
      calculate_entropy_per_cm2_per_s_def split: sum.splits)

text \<open>
  C9. No method has a side effect on the instance and none reads a stored result. For the
  six methods as state transformers, on instances that may hold any further attributes:
  \<^item> each returns the instance it was called on, unchanged in the three fields and in
    every other attribute;
  \<^item> called on two instances with the same three field values, whatever else the two
    hold and whatever calls and assignments produced them, each returns the same result;
  \<^item> the result is the value of the function of the three fields by which the method is
    embedded in the other sections.
  In the witness an instance holding a stored attribute is evaluated, its three fields are
  assigned anew, and the evaluation then returns what a fresh instance with these field
  values returns.
\<close>

theorem derived_quantities_pure:
  assumes "flux a = flux b" "pixel_area a = pixel_area b" "frame_duration a = frame_duration b"
  shows "snd (calculate_flux_area_product_st a) = a
       \<and> snd (calculate_flux_area_frame_duration_product_st a) = a
       \<and> snd (calculate_pixel_occupancy_st a) = a
       \<and> snd (calculate_pixel_entropy_st a) = a
       \<and> snd (calculate_entropy_per_cm2_st a) = a
       \<and> snd (calculate_entropy_per_cm2_per_s_st a) = a
       \<and> fst (calculate_flux_area_product_st a) = fst (calculate_flux_area_product_st b)
       \<and> fst (calculate_flux_area_frame_duration_product_st a)
           = fst (calculate_flux_area_frame_duration_product_st b)
       \<and> fst (calculate_pixel_occupancy_st a) = fst (calculate_pixel_occupancy_st b)
       \<and> fst (calculate_pixel_entropy_st a) = fst (calculate_pixel_entropy_st b)
       \<and> fst (calculate_entropy_per_cm2_st a) = fst (calculate_entropy_per_cm2_st b)
       \<and> fst (calculate_entropy_per_cm2_per_s_st a) = fst (calculate_entropy_per_cm2_per_s_st b)
       \<and> fst (calculate_flux_area_product_st a) = calculate_flux_area_product a
       \<and> fst (calculate_flux_area_frame_duration_product_st a)
           = calculate_flux_area_frame_duration_product a
       \<and> fst (calculate_pixel_occupancy_st a) = calculate_pixel_occupancy a
       \<and> fst (calculate_pixel_entropy_st a) = calculate_pixel_entropy a
       \<and> fst (calculate_entropy_per_cm2_st a) = calculate_entropy_per_cm2 a
       \<and> fst (calculate_entropy_per_cm2_per_s_st a) = calculate_entropy_per_cm2_per_s a"
  using chain_of_fields [OF assms]
  by (simp add: flux_area_product_st flux_area_frame_duration_product_st pixel_occupancy_st
      pixel_entropy_st entropy_per_cm2_st entropy_per_cm2_per_s_st)

theorem derived_quantities_pure_witness:
  "snd (calculate_entropy_per_cm2_per_s_st
          \<lparr>flux = 10 ^ 6, pixel_area = 4 / 10 ^ 6, frame_duration = 2 / 10 ^ 6,
             other_attributes = [''entropy_cache'' \<mapsto> Num 7]\<rparr>)
     = \<lparr>flux = 10 ^ 6, pixel_area = 4 / 10 ^ 6, frame_duration = 2 / 10 ^ 6,
          other_attributes = [''entropy_cache'' \<mapsto> Num 7]\<rparr>
   \<and> fst (calculate_entropy_per_cm2_per_s_st
          ((snd (calculate_entropy_per_cm2_per_s_st
                   \<lparr>flux = 10 ^ 6, pixel_area = 4 / 10 ^ 6, frame_duration = 2 / 10 ^ 6,
                      other_attributes = [''entropy_cache'' \<mapsto> Num 7]\<rparr>))
             \<lparr>flux := 10 ^ 8, pixel_area := 1 / 10 ^ 6, frame_duration := 1 / 10 ^ 7\<rparr>))
     = fst (calculate_entropy_per_cm2_per_s_st
          \<lparr>flux = 10 ^ 8, pixel_area = 1 / 10 ^ 6, frame_duration = 1 / 10 ^ 7,
             other_attributes = Map.empty\<rparr>)
   \<and> fst (calculate_pixel_entropy_st
          ((snd (calculate_pixel_entropy_st
                   \<lparr>flux = 10 ^ 6, pixel_area = 4 / 10 ^ 6, frame_duration = 2 / 10 ^ 6,
                      other_attributes = [''entropy_cache'' \<mapsto> Num 7]\<rparr>))
             \<lparr>flux := 10 ^ 8, pixel_area := 1 / 10 ^ 6, frame_duration := 1 / 10 ^ 7\<rparr>))
     = fst (calculate_pixel_entropy_st
          \<lparr>flux = 10 ^ 8, pixel_area = 1 / 10 ^ 6, frame_duration = 1 / 10 ^ 7,
             other_attributes = Map.empty\<rparr>)
   \<and> fst (calculate_entropy_per_cm2_per_s_st
          \<lparr>flux = 10 ^ 8, pixel_area = 1 / 10 ^ 6, frame_duration = 1 / 10 ^ 7,
             other_attributes = Map.empty\<rparr>)
     = calculate_entropy_per_cm2_per_s base_parameters"
proof -
  define X :: Instance where
    "X = \<lparr>flux = 10 ^ 6, pixel_area = 4 / 10 ^ 6, frame_duration = 2 / 10 ^ 6,
           other_attributes = [''entropy_cache'' \<mapsto> Num 7]\<rparr>"
  define Y :: Instance where
    "Y = \<lparr>flux = 10 ^ 8, pixel_area = 1 / 10 ^ 6, frame_duration = 1 / 10 ^ 7,
           other_attributes = Map.empty\<rparr>"
  define Z where
    "Z = X\<lparr>flux := 10 ^ 8, pixel_area := 1 / 10 ^ 6, frame_duration := 1 / 10 ^ 7\<rparr>"
  note x = derived_quantities_pure [of X X]
  have s: "snd (calculate_entropy_per_cm2_per_s_st X) = X" "snd (calculate_pixel_entropy_st X) = X"
    using x by simp_all
  have f: "flux Z = flux Y" "pixel_area Z = pixel_area Y" "frame_duration Z = frame_duration Y"
    by (simp_all add: Z_def Y_def)
  note z = derived_quantities_pure [OF f]
  have a: "fst (calculate_entropy_per_cm2_per_s_st Z) = fst (calculate_entropy_per_cm2_per_s_st Y)"
    and b: "fst (calculate_pixel_entropy_st Z) = fst (calculate_pixel_entropy_st Y)"
    using z by simp_all
  have "flux Y = flux base_parameters" "pixel_area Y = pixel_area base_parameters"
    "frame_duration Y = frame_duration base_parameters"
    by (simp_all add: Y_def base_parameters_def)
  from chain_of_fields(6) [OF this] derived_quantities_pure [of Y Y]
  have c: "fst (calculate_entropy_per_cm2_per_s_st Y) = calculate_entropy_per_cm2_per_s base_parameters"
    by simp
  from s a b c show ?thesis unfolding Z_def X_def Y_def by simp
qed


text \<open>
  C10. Two instances compare equal under the generated \<open>__eq__\<close> exactly when their three
  fields are equal, one by one; for instances without further attributes this is equality
  of the instances.
\<close>

theorem dataclass_equality:
  "(eq_InputParameters p q \<longleftrightarrow>
      flux p = flux q \<and> pixel_area p = pixel_area q \<and> frame_duration p = frame_duration q)
   \<and> (eq_InputParameters (r :: InputParameters) (s :: InputParameters) \<longleftrightarrow> r = s)"
  by (auto simp: eq_InputParameters_def)

end
